theory Spec2Isabelle
  imports Main "HOL-Library.Word" "HOL-Library.Sublist" "HOL-Library.AList"
begin

section \<open>Data model (session and game source files)\<close>

text \<open>
  A \<open>time.Time\<close> is kept as its calendar fields; the code only builds one with
  \<open>time.Date\<close> from fields that are in range and later subtracts two of them.
\<close>

record Time =
  Year :: int
  Month :: int
  Day :: int
  Hour :: int
  Minute :: int
  Second :: int
  Nanosecond :: int

record Message =
  Text :: string
  Color :: string

record Event =
  GameID :: int
  Timestamp :: Time
  Type :: string
  Payload :: string

text \<open>Go's \<open>int\<close> is taken at 64 bits; \<open>Attempt += 1\<close> is machine addition.\<close>

record SessionData =
  Attempt :: "64 word"

text \<open>
  \<open>Game\<close>: the fields the control flow reads or writes. The channel and the Docker
  client are shared handles and appear as effects instead.
\<close>

record Game =
  ID :: int
  Name :: string
  Image :: string
  Addr :: string
  Ready :: bool

text \<open>
  \<open>Session\<close>. A \<open>*Game\<close> is the key of the map entry that holds the Game: \<open>NewGame\<close>
  is the only place a Game is allocated, one per key, and entries are never removed.
  The map is an association list with distinct keys; its order carries no meaning
  (the order of a \<open>range\<close> over it is an input of the loop).
\<close>

record Session =
  Data :: SessionData
  Replicas :: "(int \<times> Game) list"
  SImage :: string
  Active :: "int option"
  State :: string
  TimeStart :: Time

section \<open>Formatting helpers\<close>

definition digit_char :: "nat \<Rightarrow> char" where
  "digit_char d = ''0123456789'' ! d"

fun show_nat :: "nat \<Rightarrow> string" where
  "show_nat n = (if n < 10 then [digit_char n] else show_nat (n div 10) @ [digit_char (n mod 10)])"

declare show_nat.simps [simp del]

text \<open>The verb \<open>%d\<close> of \<open>fmt\<close>.\<close>

definition show_int :: "int \<Rightarrow> string" where
  "show_int i = (if i < 0 then CHR ''-'' # show_nat (nat (- i)) else show_nat (nat i))"

text \<open>\<open>strings.Contains(s, sub)\<close>.\<close>

fun Contains :: "string \<Rightarrow> string \<Rightarrow> bool" where
  "Contains [] sub = (sub = [])"
| "Contains (c # cs) sub = (prefix sub (c # cs) \<or> Contains cs sub)"

section \<open>The log parser: \<open>Game.HandleLog\<close>\<close>

text \<open>
  \<open>logExpression\<close> is \<^verbatim>\<open>^\[(\d+:\d+:\d+)\] \[([\s\w/-]+)\]: (.+)$\<close>.
  Each repetition is followed by a character outside its class, so the match is
  unique and a greedy scan finds it. The result is the list of the three groups.
\<close>

definition byte :: "char \<Rightarrow> nat" where
  "byte c = of_char c"

definition is_digit :: "char \<Rightarrow> bool" where
  "is_digit c = (byte CHR ''0'' \<le> byte c \<and> byte c \<le> byte CHR ''9'')"

definition is_space :: "char \<Rightarrow> bool" where
  "is_space c = (c \<in> set [CHR 0x09, CHR 0x0A, CHR 0x0C, CHR 0x0D, CHR '' ''])"

definition is_word :: "char \<Rightarrow> bool" where
  "is_word c = (is_digit c \<or> (byte CHR ''A'' \<le> byte c \<and> byte c \<le> byte CHR ''Z'')
      \<or> (byte CHR ''a'' \<le> byte c \<and> byte c \<le> byte CHR ''z'') \<or> c = CHR ''_'')"

definition is_thread :: "char \<Rightarrow> bool" where
  "is_thread c = (is_space c \<or> is_word c \<or> c = CHR ''/'' \<or> c = CHR ''-'')"

text \<open>A non-empty run of the class, then the literal \<open>lit\<close>.\<close>

definition run_then :: "(char \<Rightarrow> bool) \<Rightarrow> string \<Rightarrow> string \<Rightarrow> (string \<times> string) option" where
  "run_then cls lit s =
     (let r = takeWhile cls s; rest = dropWhile cls s
      in if r \<noteq> [] \<and> prefix lit rest then Some (r, drop (length lit) rest) else None)"

definition logExpression :: "string \<Rightarrow> (string \<times> string \<times> string) option" where
  "logExpression line =
     (case line of
        [] \<Rightarrow> None
      | c # s0 \<Rightarrow>
          if c \<noteq> CHR ''['' then None
          else (case run_then is_digit '':'' s0 of None \<Rightarrow> None | Some (h, s1) \<Rightarrow>
               (case run_then is_digit '':'' s1 of None \<Rightarrow> None | Some (m, s2) \<Rightarrow>
               (case run_then is_digit ''] ['' s2 of None \<Rightarrow> None | Some (sec, s3) \<Rightarrow>
               (case run_then is_thread '']: '' s3 of None \<Rightarrow> None | Some (thr, text) \<Rightarrow>
                  if text \<noteq> [] \<and> CHR 0x0A \<notin> set text
                  then Some (h @ '':'' @ m @ '':'' @ sec, thr, text) else None)))))"

text \<open>
  \<open>time.Parse("15:04:05", ts)\<close> on a string of digits and colons: the hour has
  one or two digits, minute and second exactly two, each within its range, and
  nothing may follow.
\<close>

datatype parse_error = BadValue | OutOfRange | ExtraText

definition digit_val :: "char \<Rightarrow> nat" where
  "digit_val c = byte c - byte CHR ''0''"

text \<open>\<open>getnum(s, fixed)\<close> of the time package.\<close>

definition getnum :: "string \<Rightarrow> bool \<Rightarrow> (nat \<times> string) option" where
  "getnum s fixed =
     (case s of
        [] \<Rightarrow> None
      | a # r \<Rightarrow>
          if \<not> is_digit a then None
          else (case r of
                  [] \<Rightarrow> if fixed then None else Some (digit_val a, r)
                | b # r' \<Rightarrow>
                    if is_digit b then Some (digit_val a * 10 + digit_val b, r')
                    else if fixed then None else Some (digit_val a, r)))"

definition skip_colon :: "string \<Rightarrow> string option" where
  "skip_colon s = (case s of [] \<Rightarrow> None | c # r \<Rightarrow> if c = CHR '':'' then Some r else None)"

definition time_Parse :: "string \<Rightarrow> parse_error + (nat \<times> nat \<times> nat)" where
  "time_Parse ts =
     (case getnum ts False of None \<Rightarrow> Inl BadValue | Some (h, s1) \<Rightarrow>
      if 24 \<le> h then Inl OutOfRange else
     (case skip_colon s1 of None \<Rightarrow> Inl BadValue | Some s2 \<Rightarrow>
     (case getnum s2 True of None \<Rightarrow> Inl BadValue | Some (m, s3) \<Rightarrow>
      if 60 \<le> m then Inl OutOfRange else
     (case skip_colon s3 of None \<Rightarrow> Inl BadValue | Some s4 \<Rightarrow>
     (case getnum s4 True of None \<Rightarrow> Inl BadValue | Some (sec, s5) \<Rightarrow>
      if 60 \<le> sec then Inl OutOfRange
      else if s5 \<noteq> [] then Inl ExtraText
      else Inr (h, m, sec))))))"

text \<open>
  The \<open>switch\<close> of \<open>HandleLog\<close> on the message text: the first case whose phrase
  occurs decides the type; the empty string means no case applied.
\<close>

definition classify :: "string \<Rightarrow> string" where
  "classify text =
     (if Contains text ''> rr'' then ''cmd.reset''
      else if Contains text '': Set the time to 0]'' then ''cmd.retime''
      else if Contains text (''For help, type '' @ [CHR 0x22] @ ''help'' @ [CHR 0x22]) then ''generated''
      else if Contains text ''joined the game'' then ''login''
      else if Contains text ''[We Need to Go Deeper]'' then ''nether''
      else if Contains text ''[The End?]'' then ''end''
      else if Contains text ''[Credits!]'' then ''credits''
      else [])"

text \<open>
  What the program does to the outside, in program order: a \<open>log.Printf\<close> with its
  format and arguments, a send on the \<open>Events\<close> channel, a send on \<open>ProxyAddr\<close>,
  a call of \<open>ContainerAttach\<close>, a line written to the standard input of an attached
  container (\<open>Fprintf\<close>), \<open>ContainerKill\<close>, \<open>ContainerInspect\<close>, a call of \<open>HandleThrow\<close>,
  the write of the state file, and for the proxy the close of a connection, a
  \<open>net.Dial\<close> and an \<open>io.Copy(dst, src)\<close>. Connections are numbered.
\<close>

datatype arg = S string | D int | PE parse_error | Err string

datatype effect =
    Printf string "arg list"
  | Send Event
  | ProxyAddr string
  | ContainerAttach string
  | Stdin string string
  | ContainerKill string string
  | ContainerInspect string
  | Throw string string
  | SaveFile SessionData
  | ConnClose nat
  | Dial string
  | Copy nat nat

text \<open>\<open>now\<close> is the value of \<open>time.Now()\<close> read inside the call.\<close>

definition HandleLog :: "Time \<Rightarrow> Game \<Rightarrow> string \<Rightarrow> effect list" where
  "HandleLog now g line =
     Printf ''[%s] %s'' [S (Name g), S line] #
     (case logExpression line of
        None \<Rightarrow> []
      | Some (ts, thr, text) \<Rightarrow>
          (case time_Parse ts of
             Inl err \<Rightarrow> [Printf ''[%s] error parsing time: %s'' [S (Name g), PE err]]
           | Inr (h, m, sec) \<Rightarrow>
               let t = \<lparr>Year = Year now, Month = Month now, Day = Day now,
                        Hour = int h, Minute = int m, Second = int sec,
                        Nanosecond = Nanosecond now\<rparr>;
                   typ = classify text
               in if typ \<noteq> []
                  then [Send \<lparr>GameID = ID g, Timestamp = t, Type = typ, Payload = text\<rparr>]
                  else []))"

section \<open>The session\<close>

text \<open>
  The library calls whose results the code uses: the address \<open>ContainerInspect\<close>
  reports for a container (or an error), the error of \<open>ContainerAttach\<close> for a
  container when a given command is to be sent (\<open>None\<close> when the attach succeeds),
  \<open>json.Marshal\<close> of a message list, and the text \<open>%s\<close> prints for \<open>a.Sub(b)\<close>.
\<close>

record env =
  Inspect :: "string \<Rightarrow> string option"
  Attach :: "string \<Rightarrow> string \<Rightarrow> string option"
  Marshal :: "Message list \<Rightarrow> string"
  Elapsed :: "Time \<Rightarrow> Time \<Rightarrow> string"

datatype fault = NilDereference

definition zero_Time :: Time where
  "zero_Time = \<lparr>Year = 1, Month = 1, Day = 1, Hour = 0, Minute = 0, Second = 0, Nanosecond = 0\<rparr>"

definition NewGame :: "Session \<Rightarrow> int \<Rightarrow> Session" where
  "NewGame s gid =
     s\<lparr>Replicas := AList.update gid
          \<lparr>ID = gid, Name = ''mcspeedrun_'' @ show_int gid, Image = SImage s, Addr = [], Ready = False\<rparr>
          (Replicas s)\<rparr>"

text \<open>\<open>loaded\<close> is the outcome of \<open>s.Load()\<close>: an error, or the contents of \<open>s.Data\<close>.\<close>

definition NewSession :: "string + SessionData \<Rightarrow> string \<Rightarrow> int \<Rightarrow> string + Session" where
  "NewSession loaded img replicas =
     (case loaded of
        Inl err \<Rightarrow> Inl err
      | Inr d \<Rightarrow>
          Inr (foldl NewGame
                 \<lparr>Data = d, Replicas = [], SImage = img, Active = None, State = [],
                  TimeStart = zero_Time\<rparr>
                 (map int [0 ..< nat replicas])))"

text \<open>
  Every read of \<open>s.Active\<close> goes through \<open>active\<close>: the pointer together with the
  Game it points at. A key without an entry points at nothing and reads as \<open>nil\<close>.
\<close>

definition active :: "Session \<Rightarrow> (int \<times> Game) option" where
  "active s =
     (case Active s of
        None \<Rightarrow> None
      | Some p \<Rightarrow> (case map_of (Replicas s) p of None \<Rightarrow> None | Some g \<Rightarrow> Some (p, g)))"

subsection \<open>Methods of \<open>Game\<close> the loop calls\<close>

text \<open>
  \<open>Command\<close> attaches to the container and returns at once when that fails;
  otherwise it writes the command and a newline to the attached stream, which is
  closed on return. Every caller discards the error it returns.
\<close>

definition Command :: "env \<Rightarrow> Game \<Rightarrow> string \<Rightarrow> effect list" where
  "Command e g command =
     ContainerAttach (Name g) #
     (case Attach e (Name g) command of
        Some err \<Rightarrow> []
      | None \<Rightarrow> [Stdin (Name g) (command @ [CHR 0x0A])])"

definition Say :: "env \<Rightarrow> Game \<Rightarrow> string \<Rightarrow> string \<Rightarrow> effect list" where
  "Say e g text color =
     Command e g (''/tellraw @a '' @ Marshal e [\<lparr>Text = text, Color = color\<rparr>])"

definition Reset :: "Game \<Rightarrow> Game \<times> effect list" where
  "Reset g = (g\<lparr>Ready := False\<rparr>, [ContainerKill (Name g) ''KILL''])"

definition Refresh :: "env \<Rightarrow> Game \<Rightarrow> Game \<times> effect list" where
  "Refresh e g =
     (case Inspect e (Name g) of
        None \<Rightarrow> (g, [ContainerInspect (Name g)])
      | Some ip \<Rightarrow> (g\<lparr>Addr := ip\<rparr>, [ContainerInspect (Name g)]))"

text \<open>
  Modelled from the spec: \<open>Game.HandleThrow\<close> is called by the loop but its body is
  not among the sources. The spec says the payload is forwarded to the
  coordinate-computation collaborator of the replica; nothing of the session
  changes.
\<close>

definition HandleThrow :: "Game \<Rightarrow> string \<Rightarrow> effect list" where
  "HandleThrow g payload = [Throw (Name g) payload]"

subsection \<open>\<open>Session.Loop\<close>\<close>

text \<open>
  The \<open>range\<close> over the map with its \<open>break\<close>: \<open>order\<close> is the order in which this
  execution of the \<open>range\<close> visits the keys.
\<close>

fun range_ready :: "int list \<Rightarrow> (int \<times> Game) list \<Rightarrow> (int \<times> Game) option" where
  "range_ready [] reps = None"
| "range_ready (k # ks) reps =
     (case map_of reps k of
        None \<Rightarrow> range_ready ks reps
      | Some g \<Rightarrow> if Ready g then Some (k, g) else range_ready ks reps)"

text \<open>The head of the loop body: the search for an active game.\<close>

definition Loop_select :: "int list \<Rightarrow> Session \<Rightarrow> Session \<times> effect list" where
  "Loop_select order s =
     (if active s = None
      then (case range_ready order (Replicas s) of
              None \<Rightarrow> (s, [ProxyAddr []])
            | Some (k, g) \<Rightarrow>
                (s\<lparr>Active := Some k\<rparr>,
                 [ProxyAddr [], Printf ''[core] switching to %s'' [S (Name g)], ProxyAddr (Addr g)]))
      else (s, []))"

definition split_text :: "env \<Rightarrow> string \<Rightarrow> Session \<Rightarrow> Event \<Rightarrow> string" where
  "split_text e label s evt = label @ '': ['' @ Elapsed e (Timestamp evt) (TimeStart s) @ '']''"

text \<open>The \<open>switch\<close> on \<open>evt.Type\<close>, entered after both checks have passed.\<close>

definition dispatch :: "env \<Rightarrow> Session \<Rightarrow> Event \<Rightarrow> fault + Session \<times> effect list" where
  "dispatch e s evt =
     (if Type evt = ''cmd.reset'' then
        (case active s of
           None \<Rightarrow> Inl NilDereference
         | Some (p, g) \<Rightarrow>
             let (g', out) = Reset g
             in Inr (s\<lparr>State := [],
                      Data := (Data s)\<lparr>Attempt := Attempt (Data s) + 1\<rparr>,
                      Replicas := AList.update p g' (Replicas s),
                      Active := None\<rparr>, out))
      else if Type evt = ''cmd.player'' then
        (case active s of
           None \<Rightarrow> Inl NilDereference
         | Some (p, g) \<Rightarrow> Inr (s, HandleThrow g (Payload evt)))
      else if Type evt = ''cmd.pearl'' then
        (case active s of
           None \<Rightarrow> Inl NilDereference
         | Some (p, g) \<Rightarrow>
             Inr (s, HandleThrow g (Payload evt) @ Say e g (split_text e ''Pearl'' s evt) ''green''))
      else if Type evt = ''generated'' then
        (case map_of (Replicas s) (GameID evt) of
           None \<Rightarrow> Inl NilDereference
         | Some g \<Rightarrow>
             let (g', out) = Refresh e (g\<lparr>Ready := True\<rparr>)
             in Inr (s\<lparr>Replicas := AList.update (GameID evt) g' (Replicas s)\<rparr>,
                     out @ [Printf ''[core] server %d is online'' [D (GameID evt)]]))
      else if Type evt = ''login'' then
        (if State s \<noteq> [] then Inr (s, [])
         else (case active s of
                 None \<Rightarrow> Inl NilDereference
               | Some (p, g) \<Rightarrow>
                   Inr (s\<lparr>State := ''overworld'', TimeStart := Timestamp evt\<rparr>,
                        Say e g (''attempt #'' @ show_int (sint (Attempt (Data s)))) ''green''
                        @ Command e g ''/time set 0'' @ Command e g ''/save-off'')))
      else if Type evt = ''nether'' then
        (if State s \<noteq> ''overworld'' then Inr (s, [])
         else (case active s of
                 None \<Rightarrow> Inl NilDereference
               | Some (p, g) \<Rightarrow>
                   Inr (s\<lparr>State := ''nether''\<rparr>, Say e g (split_text e ''Nether'' s evt) ''green'')))
      else if Type evt = ''end'' then
        (if State s \<noteq> ''nether'' then Inr (s, [])
         else (case active s of
                 None \<Rightarrow> Inl NilDereference
               | Some (p, g) \<Rightarrow>
                   Inr (s\<lparr>State := ''end''\<rparr>, Say e g (split_text e ''End'' s evt) ''green'')))
      else if Type evt = ''credits'' then
        (if State s \<noteq> ''end'' then Inr (s, [])
         else (case active s of
                 None \<Rightarrow> Inl NilDereference
               | Some (p, g) \<Rightarrow>
                   Inr (s\<lparr>State := ''credits''\<rparr>, Say e g (split_text e ''Credits'' s evt) ''green'')))
      else Inr (s, []))"

text \<open>
  The two checks ahead of the \<open>switch\<close>: \<open>Some\<close> of the line logged when one of them
  skips the event with \<open>continue\<close>, \<open>None\<close> when the event goes on to the \<open>switch\<close>.
\<close>

definition checks :: "Session \<Rightarrow> Event \<Rightarrow> effect option" where
  "checks s evt =
     (if int (length (Replicas s)) \<le> GameID evt
      then Some (Printf ''[core] unknown game ID %d'' [D (GameID evt)])
      else if (case active s of None \<Rightarrow> True | Some (p, g) \<Rightarrow> GameID evt \<noteq> ID g)
              \<and> Type evt \<noteq> ''generated''
      then Some (Printf ''[core] %s event from non-active game %d'' [S (Type evt), D (GameID evt)])
      else None)"

definition received :: "Event \<Rightarrow> effect" where
  "received evt =
     Printf (''[core] received '' @ [CHR 0x27] @ ''%s'' @ [CHR 0x27] @ '' from %d'')
       [S (Type evt), D (GameID evt)]"

text \<open>The \<open>case evt := <-s.Events\<close> branch of the \<open>select\<close>.\<close>

definition Loop_event :: "env \<Rightarrow> Session \<Rightarrow> Event \<Rightarrow> fault + Session \<times> effect list" where
  "Loop_event e s evt =
     (case checks s evt of
        Some skipped \<Rightarrow> Inr (s, [received evt, skipped])
      | None \<Rightarrow>
          (case dispatch e s evt of
             Inl f \<Rightarrow> Inl f
           | Inr (s', out) \<Rightarrow> Inr (s', received evt # out)))"

text \<open>
  The \<open>select\<close>: either the context is done (with the outcome of \<open>s.Save()\<close>,
  \<open>None\<close> for no error) or an event is received.
\<close>

datatype input = Done "string option" | Recv Event

definition input_type :: "input \<Rightarrow> string" where
  "input_type inp = (case inp of Done err \<Rightarrow> [] | Recv evt \<Rightarrow> Type evt)"

text \<open>One pass through the body of the \<open>for\<close>; the flag says that \<open>Loop\<close> returned.\<close>

definition Loop_body :: "env \<Rightarrow> int list \<Rightarrow> input \<Rightarrow> Session \<Rightarrow> fault + bool \<times> Session \<times> effect list" where
  "Loop_body e keys inp s =
     (let (s1, out1) = Loop_select keys s
      in case inp of
           Done err \<Rightarrow>
             Inr (True, s1,
                  out1 @ [Printf ''[core] shutting down'' [], SaveFile (Data s1)]
                  @ (case err of
                       None \<Rightarrow> []
                     | Some m \<Rightarrow> [Printf ''[core] error saving attempt: %s'' [Err m]]))
         | Recv evt \<Rightarrow>
             (case Loop_event e s1 evt of
                Inl f \<Rightarrow> Inl f
              | Inr (s2, out2) \<Rightarrow> Inr (False, s2, out1 @ out2)))"

datatype outcome = Waiting | Returned | Panic fault

text \<open>
  The loop on a finite prefix of what its \<open>range\<close>s and its \<open>select\<close>s deliver. The
  result lists the session at the head of every pass (and after the last one), what
  the completed passes did, and how the run stands: waiting in the \<open>select\<close>,
  returned, or stopped by a panic.
\<close>

fun Loop :: "env \<Rightarrow> (int list \<times> input) list \<Rightarrow> Session \<Rightarrow> Session list \<times> effect list \<times> outcome" where
  "Loop e [] s = ([s], [], Waiting)"
| "Loop e ((keys, inp) # xs) s =
     (case Loop_body e keys inp s of
        Inl f \<Rightarrow> ([s], [], Panic f)
      | Inr (stop, s', out) \<Rightarrow>
          if stop then ([s, s'], out, Returned)
          else (case Loop e xs s' of (ss, out', r) \<Rightarrow> (s # ss, out @ out', r)))"

section \<open>The proxy: the accept loop of \<open>Session.Proxy\<close>\<close>

text \<open>
  \<open>proxyAddr\<close> is written by the goroutine that waits on the channel while the accept
  loop reads it, so each read is an input: at the test against the empty string, at
  the log line, and at the dial inside the goroutine of the connection.
\<close>

record Conn =
  Fd :: nat
  RemoteAddr :: string

record reads =
  at_check :: string
  at_log :: string
  at_dial :: string

datatype accepted = AcceptError string | Accepted Conn

text \<open>
  The goroutine of one connection; \<open>dial\<close> is the outcome of \<open>net.Dial\<close>, a
  connection number or an error. Both copies run until one side ends, then the
  guarded body closes both ends once.
\<close>

definition relay :: "(string \<Rightarrow> string + nat) \<Rightarrow> string \<Rightarrow> Conn \<Rightarrow> effect list" where
  "relay dial addr c =
     Dial (addr @ '':25565'') #
     (case dial (addr @ '':25565'') of
        Inl err \<Rightarrow> [Printf ''[proxy] error connecting to proxy: %s'' [Err err], ConnClose (Fd c)]
      | Inr proxy \<Rightarrow> [Copy proxy (Fd c), Copy (Fd c) proxy, ConnClose (Fd c), ConnClose proxy])"

fun accept_loop :: "(string \<Rightarrow> string + nat) \<Rightarrow> (accepted \<times> reads) list \<Rightarrow> effect list" where
  "accept_loop dial [] = []"
| "accept_loop dial ((AcceptError err, r) # rest) =
     [Printf ''[proxy] error accepting connection: %s'' [Err err]]"
| "accept_loop dial ((Accepted c, r) # rest) =
     (if at_check r = [] then ConnClose (Fd c) # accept_loop dial rest
      else Printf ''%s -> %s'' [S (RemoteAddr c), S (at_log r)]
           # relay dial (at_dial r) c @ accept_loop dial rest)"

section \<open>Phases\<close>

text \<open>
  The moves of \<open>s.State\<close> a single event of type \<open>ty\<close> may make: none, one step
  forward on the matching event, or back to the empty string (idle) on a reset.
\<close>

definition phase_step :: "string \<Rightarrow> string \<Rightarrow> string \<Rightarrow> bool" where
  "phase_step p ty p' \<longleftrightarrow>
     p' = p
     \<or> (ty = ''login'' \<and> p = [] \<and> p' = ''overworld'')
     \<or> (ty = ''nether'' \<and> p = ''overworld'' \<and> p' = ''nether'')
     \<or> (ty = ''end'' \<and> p = ''nether'' \<and> p' = ''end'')
     \<or> (ty = ''credits'' \<and> p = ''end'' \<and> p' = ''credits'')
     \<or> (ty = ''cmd.reset'' \<and> p' = [])"

section \<open>A sample session\<close>

definition demo_now :: Time where
  "demo_now = \<lparr>Year = 2020, Month = 5, Day = 17, Hour = 9, Minute = 1, Second = 2, Nanosecond = 77\<rparr>"

definition demo_env :: env where
  "demo_env = \<lparr>Inspect = (\<lambda>n. Some ''172.17.0.2''), Attach = (\<lambda>n c. None), Marshal = (\<lambda>ms. concat (map Text ms)),
               Elapsed = (\<lambda>a b. ''1m0s'')\<rparr>"

text \<open>The same surroundings with every attach failing.\<close>

definition demo_env_down :: env where
  "demo_env_down = demo_env\<lparr>Attach := (\<lambda>n c. Some ''no such container'')\<rparr>"

definition demo_game :: "int \<Rightarrow> bool \<Rightarrow> Game" where
  "demo_game k r = \<lparr>ID = k, Name = ''mcspeedrun_'' @ show_int k, Image = ''img'', Addr = [], Ready = r\<rparr>"

definition demo_session :: Session where
  "demo_session =
     \<lparr>Data = \<lparr>Attempt = 4\<rparr>, Replicas = [(0, demo_game 0 True), (1, demo_game 1 False)],
      SImage = ''img'', Active = Some 0, State = [], TimeStart = zero_Time\<rparr>"

definition demo_event :: "string \<Rightarrow> int \<Rightarrow> Event" where
  "demo_event ty k = \<lparr>GameID = k, Timestamp = demo_now, Type = ty, Payload = []\<rparr>"

text \<open>
  A run from the sample session through all the phases, with one event out of turn:
  login, credits (ignored in overworld), nether, end, credits, reset.
\<close>

definition demo_phase :: "string \<Rightarrow> Session" where
  "demo_phase p = demo_session\<lparr>State := p, TimeStart := demo_now\<rparr>"

definition demo_after_reset :: Session where
  "demo_after_reset =
     \<lparr>Data = \<lparr>Attempt = 5\<rparr>, Replicas = [(0, demo_game 0 False), (1, demo_game 1 False)],
      SImage = ''img'', Active = None, State = [], TimeStart = demo_now\<rparr>"

definition demo_chain :: "(int list \<times> input) list" where
  "demo_chain =
     [([0, 1], Recv (demo_event ''login'' 0)),
      ([0, 1], Recv (demo_event ''credits'' 0)),
      ([0, 1], Recv (demo_event ''nether'' 0)),
      ([0, 1], Recv (demo_event ''end'' 0)),
      ([0, 1], Recv (demo_event ''credits'' 0)),
      ([0, 1], Recv (demo_event ''cmd.reset'' 0))]"

section \<open>The rule table of the log parser\<close>

text \<open>A sample line of server output, and its message.\<close>

definition retime_line :: string where
  "retime_line = ''[12:34:56] [Server thread/INFO]: [Steve: Set the time to 0]''"

definition retime_text :: string where
  "retime_text = ''[Steve: Set the time to 0]''"

text \<open>The third phrase of the \<open>switch\<close>: \<^verbatim>\<open>For help, type "help"\<close>.\<close>

definition help_phrase :: string where
  "help_phrase = ''For help, type '' @ [CHR 0x22] @ ''help'' @ [CHR 0x22]"

text \<open>The cases of the \<open>switch\<close> in \<open>HandleLog\<close>, read as a table, in their order.\<close>

definition code_rules :: "(string \<times> string) list" where
  "code_rules =
     [(''> rr'', ''cmd.reset''),
      ('': Set the time to 0]'', ''cmd.retime''),
      (help_phrase, ''generated''),
      (''joined the game'', ''login''),
      (''[We Need to Go Deeper]'', ''nether''),
      (''[The End?]'', ''end''),
      (''[Credits!]'', ''credits'')]"

text \<open>
  The table as the specification words it: reset command phrase, generation-complete
  phrase, player-joined phrase, nether-entry phrase, end-entry phrase, credits phrase.
\<close>

definition spec_rules :: "(string \<times> string) list" where
  "spec_rules =
     [(''> rr'', ''cmd.reset''),
      (help_phrase, ''generated''),
      (''joined the game'', ''login''),
      (''[We Need to Go Deeper]'', ''nether''),
      (''[The End?]'', ''end''),
      (''[Credits!]'', ''credits'')]"

text \<open>First match wins; the empty string when no phrase occurs.\<close>

fun first_match :: "(string \<times> string) list \<Rightarrow> string \<Rightarrow> string" where
  "first_match [] text = []"
| "first_match ((phrase, kind) # rules) text =
     (if Contains text phrase then kind else first_match rules text)"

text \<open>The events a list of effects sends on the channel.\<close>

fun sends :: "effect list \<Rightarrow> Event list" where
  "sends [] = []"
| "sends (Send evt # out) = evt # sends out"
| "sends (x # out) = sends out"

section \<open>The replica map, and sample inputs for the proxy and the selection\<close>

text \<open>
  Every entry of the map holds the Game whose \<open>ID\<close> is its key, as \<open>NewGame\<close> stores it.
\<close>

definition ids_ok :: "Session \<Rightarrow> bool" where
  "ids_ok s = list_all (\<lambda>(k, g). ID g = k) (Replicas s)"

text \<open>
  Sample inputs of the accept loop.
\<close>

definition demo_dial :: "string \<Rightarrow> string + nat" where
  "demo_dial a = Inr 9"

definition demo_conn :: "nat \<Rightarrow> Conn" where
  "demo_conn n = \<lparr>Fd = n, RemoteAddr = ''192.0.2.1:50000''\<rparr>"

definition demo_reads :: "string \<Rightarrow> reads" where
  "demo_reads a = \<lparr>at_check = a, at_log = a, at_dial = a\<rparr>"

text \<open>
  A run with three replicas: all three report \<open>generated\<close>, replica 0 is made active
  after the first report and is then reset. \<open>c1_before\<close> is the session \<open>NewSession\<close>
  builds and \<open>c1_ready\<close> the session after the run.
\<close>

definition c1_up :: "int \<Rightarrow> bool \<Rightarrow> Game" where
  "c1_up k r = \<lparr>ID = k, Name = ''mcspeedrun_'' @ show_int k, Image = ''img'', Addr = ''172.17.0.2'', Ready = r\<rparr>"

definition c1_state :: "(int \<times> Game) list \<Rightarrow> int option \<Rightarrow> 64 word \<Rightarrow> Session" where
  "c1_state reps a n =
     \<lparr>Data = \<lparr>Attempt = n\<rparr>, Replicas = reps, SImage = ''img'', Active = a, State = [],
      TimeStart = zero_Time\<rparr>"

definition c1_before :: Session where
  "c1_before = c1_state [(0, demo_game 0 False), (1, demo_game 1 False), (2, demo_game 2 False)] None 0"

definition c1_ready :: Session where
  "c1_ready = c1_state [(0, c1_up 0 False), (1, c1_up 1 True), (2, c1_up 2 True)] None 1"

definition c1_run :: "(int list \<times> input) list" where
  "c1_run =
     [([0, 1, 2], Recv (demo_event ''generated'' 0)),
      ([0, 1, 2], Recv (demo_event ''generated'' 1)),
      ([0, 1, 2], Recv (demo_event ''generated'' 2)),
      ([0, 1, 2], Recv (demo_event ''cmd.reset'' 0))]"

text \<open>
  The active pointer, when not nil, is a key of the map: it points at a Game.
\<close>

definition ptr_ok :: "Session \<Rightarrow> bool" where
  "ptr_ok s = (case Active s of None \<Rightarrow> True | Some p \<Rightarrow> map_of (Replicas s) p \<noteq> None)"

section \<open>Properties of the session loop\<close>

lemma checks_None_iff:
  "checks s evt = None \<longleftrightarrow>
     GameID evt < int (length (Replicas s)) \<and>
     (Type evt = ''generated'' \<or> (\<exists>p g. active s = Some (p, g) \<and> ID g = GameID evt))"
  by (auto simp: checks_def split: option.splits)

lemma checks_active:
  assumes "checks s evt = None" and "Type evt \<noteq> ''generated''"
  obtains p g where "active s = Some (p, g)" and "ID g = GameID evt"
  using assms unfolding checks_None_iff by blast

lemma Loop_event_pass:
  "checks s evt = None \<Longrightarrow>
   Loop_event e s evt =
     (case dispatch e s evt of Inl f \<Rightarrow> Inl f | Inr (s', out) \<Rightarrow> Inr (s', received evt # out))"
  by (simp add: Loop_event_def)

lemma Loop_event_skip:
  "checks s evt = Some x \<Longrightarrow> Loop_event e s evt = Inr (s, [received evt, x])"
  by (simp add: Loop_event_def)

lemma dispatch_reset:
  "Type evt = ''cmd.reset'' \<Longrightarrow> active s = Some (p, g) \<Longrightarrow>
   dispatch e s evt =
     Inr (s\<lparr>State := [], Data := (Data s)\<lparr>Attempt := Attempt (Data s) + 1\<rparr>,
            Replicas := AList.update p (g\<lparr>Ready := False\<rparr>) (Replicas s), Active := None\<rparr>,
          [ContainerKill (Name g) ''KILL''])"
  by (simp add: dispatch_def Reset_def)

lemma dispatch_login:
  "Type evt = ''login'' \<Longrightarrow>
   dispatch e s evt =
     (if State s \<noteq> [] then Inr (s, [])
      else (case active s of
              None \<Rightarrow> Inl NilDereference
            | Some (p, g) \<Rightarrow>
                Inr (s\<lparr>State := ''overworld'', TimeStart := Timestamp evt\<rparr>,
                     Say e g (''attempt #'' @ show_int (sint (Attempt (Data s)))) ''green''
                     @ Command e g ''/time set 0'' @ Command e g ''/save-off'')))"
  by (simp add: dispatch_def)


lemma sint_succ:
  fixes a :: "64 word"
  assumes "sint a \<noteq> 2 ^ 63 - 1"
  shows "sint (a + 1) = sint a + 1"
proof -
  have "sint a < 2 ^ 63" using sint_lt [of a] by simp
  moreover have "- (2 ^ 63) \<le> sint a" using sint_ge [of a] by simp
  ultimately show ?thesis using assms
    by (simp add: sint_word_add signed_take_bit_int_eq_self)
qed

lemma dispatch_phase:
  "dispatch e s evt = Inr (s', out) \<Longrightarrow> phase_step (State s) (Type evt) (State s')"
  unfolding dispatch_def phase_step_def
  by (auto simp: Reset_def Refresh_def split: if_splits option.splits prod.splits)

lemma Loop_event_phase:
  assumes "Loop_event e s evt = Inr (s', out)"
  shows "phase_step (State s) (Type evt) (State s')"
proof (cases "checks s evt")
  case None
  with assms obtain o' where "dispatch e s evt = Inr (s', o')"
    by (auto simp: Loop_event_pass split: sum.splits)
  then show ?thesis by (rule dispatch_phase)
next
  case (Some x)
  with assms have "s' = s" by (simp add: Loop_event_skip)
  then show ?thesis by (simp add: phase_step_def)
qed

lemma Loop_select_State: "State (fst (Loop_select keys s)) = State s"
  by (simp add: Loop_select_def split: option.splits prod.splits)

lemma Loop_body_phase:
  assumes "Loop_body e keys inp s = Inr (stop, s', out)"
  shows "phase_step (State s) (input_type inp) (State s')"
proof (cases inp)
  case (Done err)
  with assms have "s' = fst (Loop_select keys s)"
    by (auto simp: Loop_body_def split: prod.splits)
  then show ?thesis by (simp add: Loop_select_State phase_step_def)
next
  case (Recv evt)
  with assms obtain o2 where "Loop_event e (fst (Loop_select keys s)) evt = Inr (s', o2)"
    by (auto simp: Loop_body_def split: prod.splits sum.splits)
  from Loop_event_phase [OF this] Recv show ?thesis
    by (simp add: Loop_select_State input_type_def)
qed

lemma Loop_hd: "fst (Loop e xs s) \<noteq> [] \<and> hd (fst (Loop e xs s)) = s"
  by (cases xs) (auto split: sum.splits prod.splits if_splits)

lemma Loop_phases:
  assumes "Loop e xs s = (ss, out, r)" and "Suc i < length ss"
  shows "i < length xs \<and> phase_step (State (ss ! i)) (input_type (snd (xs ! i))) (State (ss ! Suc i))"
  using assms
proof (induction xs arbitrary: s ss out r i)
  case Nil
  then show ?case by auto
next
  case (Cons x xs)
  obtain keys inp where x: "x = (keys, inp)" by (cases x)
  show ?case
  proof (cases "Loop_body e keys inp s")
    case (Inl f)
    with Cons.prems x show ?thesis by auto
  next
    case (Inr t)
    then obtain stop s' o1 where body: "Loop_body e keys inp s = Inr (stop, s', o1)"
      by (cases t) auto
    note step = Loop_body_phase [OF body]
    show ?thesis
    proof (cases stop)
      case True
      with Cons.prems x body have "ss = [s, s']" by auto
      with Cons.prems(2) step x show ?thesis by simp
    next
      case False
      obtain ss' o2 r' where rest: "Loop e xs s' = (ss', o2, r')" by (cases "Loop e xs s'")
      with Cons.prems(1) x body False have ss: "ss = s # ss'" by auto
      from Loop_hd [of e xs s'] rest have hd: "ss' \<noteq> []" "hd ss' = s'" by simp_all
      show ?thesis
      proof (cases i)
        case 0
        with ss hd step x show ?thesis by (simp add: hd_conv_nth)
      next
        case (Suc j)
        with Cons.prems(2) ss have "Suc j < length ss'" by simp
        from Cons.IH [OF rest this] Suc ss x show ?thesis by simp
      qed
    qed
  qed
qed

text \<open>
  C6: an event whose \<open>GameID\<close> is at least \<open>len(s.Replicas)\<close> is skipped: the session
  is returned as it was and the only output is the two log lines.
\<close>

theorem unknown_game_dropped:
  assumes "int (length (Replicas s)) \<le> GameID evt"
  shows "Loop_event e s evt =
           Inr (s, [received evt, Printf ''[core] unknown game ID %d'' [D (GameID evt)]])"
  using assms by (simp add: Loop_event_def checks_def)

theorem unknown_game_dropped_witness:
  "int (length (Replicas demo_session)) \<le> GameID (demo_event ''login'' 2) \<and>
   Loop_event demo_env demo_session (demo_event ''login'' 2) =
     Inr (demo_session,
          [received (demo_event ''login'' 2), Printf ''[core] unknown game ID %d'' [D 2]])"
proof -
  have h: "int (length (Replicas demo_session)) \<le> GameID (demo_event ''login'' 2)"
    by (simp add: demo_session_def demo_event_def)
  from unknown_game_dropped [OF h, of demo_env] h show ?thesis
    by (simp add: demo_event_def)
qed

text \<open>
  C4: a reset event that passes both checks adds one to the attempt counter (machine
  addition; in the signed reading as long as the counter is not the largest value),
  empties the phase and sets the active pointer to nil, whatever the phase was.
\<close>

theorem reset_event:
  assumes "Type evt = ''cmd.reset''" and "checks s evt = None"
  shows "\<exists>s' out. Loop_event e s evt = Inr (s', out)
           \<and> Attempt (Data s') = Attempt (Data s) + 1
           \<and> (sint (Attempt (Data s)) \<noteq> 2 ^ 63 - 1 \<longrightarrow>
                sint (Attempt (Data s')) = sint (Attempt (Data s)) + 1)
           \<and> State s' = [] \<and> Active s' = None"
proof -
  from assms obtain p g where a: "active s = Some (p, g)"
    by (auto elim: checks_active)
  show ?thesis
    by (simp add: Loop_event_pass [OF assms(2)] dispatch_reset [OF assms(1) a] sint_succ)
qed

lemma demo_active: "active demo_session = Some (0, demo_game 0 True)"
  by (simp add: active_def demo_session_def)

lemma demo_checks: "checks demo_session (demo_event ty 0) = None"
  by (simp add: checks_def demo_active) (simp add: demo_session_def demo_event_def demo_game_def)

theorem reset_event_witness:
  "Type (demo_event ''cmd.reset'' 0) = ''cmd.reset'' \<and>
   checks demo_session (demo_event ''cmd.reset'' 0) = None \<and>
   sint (Attempt (Data demo_session)) \<noteq> 2 ^ 63 - 1 \<and>
   (\<exists>s' out. Loop_event demo_env demo_session (demo_event ''cmd.reset'' 0) = Inr (s', out)
      \<and> Attempt (Data s') = 5 \<and> sint (Attempt (Data s')) = 5 \<and> State s' = [] \<and> Active s' = None)"
proof -
  have h1: "Type (demo_event ''cmd.reset'' 0) = ''cmd.reset''" by (simp add: demo_event_def)
  have h2: "sint (Attempt (Data demo_session)) \<noteq> 2 ^ 63 - 1" by (simp add: demo_session_def)
  have a: "Attempt (Data demo_session) = 4" by (simp add: demo_session_def)
  from reset_event [OF h1 demo_checks, of demo_env] h1 h2 demo_checks show ?thesis
    unfolding a by auto
qed

text \<open>
  C5: an event that is not of type \<open>generated\<close> and arrives while no game is active,
  or from a game whose id is not that of the active game, is skipped: the session
  is returned as it was and the output is the two log lines. A \<open>generated\<close> event
  of any game of the map is taken whatever the active game is, and marks its game
  ready.
\<close>

theorem nonactive_event_dropped:
  "(Type evt \<noteq> ''generated'' \<and>
      (active s = None \<or> (\<exists>p g. active s = Some (p, g) \<and> ID g \<noteq> GameID evt))
    \<longrightarrow> (\<exists>fmt args. Loop_event e s evt = Inr (s, [received evt, Printf fmt args])))
   \<and> (Type evt = ''generated'' \<and> GameID evt < int (length (Replicas s)) \<and>
        map_of (Replicas s) (GameID evt) = Some g
    \<longrightarrow> (\<exists>s' out g'. Loop_event e s evt = Inr (s', out) \<and>
          map_of (Replicas s') (GameID evt) = Some g' \<and> Ready g'))"
proof (intro conjI impI)
  assume a: "Type evt \<noteq> ''generated'' \<and>
      (active s = None \<or> (\<exists>p g. active s = Some (p, g) \<and> ID g \<noteq> GameID evt))"
  then have "\<exists>fmt args. checks s evt = Some (Printf fmt args)"
    by (auto simp: checks_def)
  then show "\<exists>fmt args. Loop_event e s evt = Inr (s, [received evt, Printf fmt args])"
    by (auto simp: Loop_event_skip)
next
  assume a: "Type evt = ''generated'' \<and> GameID evt < int (length (Replicas s)) \<and>
        map_of (Replicas s) (GameID evt) = Some g"
  then have c: "checks s evt = None" by (simp add: checks_None_iff)
  from a show "\<exists>s' out g'. Loop_event e s evt = Inr (s', out) \<and>
          map_of (Replicas s') (GameID evt) = Some g' \<and> Ready g'"
    by (auto simp: Loop_event_pass [OF c] dispatch_def Refresh_def update_Some_unfold split: option.splits)
qed

theorem nonactive_event_dropped_witness:
  "Type (demo_event ''login'' 1) \<noteq> ''generated'' \<and>
   (\<exists>p g. active demo_session = Some (p, g) \<and> ID g \<noteq> GameID (demo_event ''login'' 1)) \<and>
   (\<exists>fmt args. Loop_event demo_env demo_session (demo_event ''login'' 1)
        = Inr (demo_session, [received (demo_event ''login'' 1), Printf fmt args])) \<and>
   Type (demo_event ''generated'' 1) = ''generated'' \<and>
   GameID (demo_event ''generated'' 1) < int (length (Replicas demo_session)) \<and>
   map_of (Replicas demo_session) (GameID (demo_event ''generated'' 1)) = Some (demo_game 1 False) \<and>
   (\<exists>s' out g'. Loop_event demo_env demo_session (demo_event ''generated'' 1) = Inr (s', out) \<and>
        map_of (Replicas s') (GameID (demo_event ''generated'' 1)) = Some g' \<and> Ready g')"
proof -
  have h1: "Type (demo_event ''login'' 1) \<noteq> ''generated''" by (simp add: demo_event_def)
  have h2: "\<exists>p g. active demo_session = Some (p, g) \<and> ID g \<noteq> GameID (demo_event ''login'' 1)"
    by (simp add: demo_active) (simp add: demo_game_def demo_event_def)
  have h3: "Type (demo_event ''generated'' 1) = ''generated''" by (simp add: demo_event_def)
  have h4: "GameID (demo_event ''generated'' 1) < int (length (Replicas demo_session))"
    by (simp add: demo_event_def demo_session_def)
  have h5: "map_of (Replicas demo_session) (GameID (demo_event ''generated'' 1)) = Some (demo_game 1 False)"
    by (simp add: demo_event_def demo_session_def)
  from nonactive_event_dropped [where evt = "demo_event ''login'' 1" and s = demo_session and e = demo_env]
    h1 h2
  have c1: "\<exists>fmt args. Loop_event demo_env demo_session (demo_event ''login'' 1)
        = Inr (demo_session, [received (demo_event ''login'' 1), Printf fmt args])"
    by blast
  from nonactive_event_dropped [where evt = "demo_event ''generated'' 1" and s = demo_session
      and g = "demo_game 1 False" and e = demo_env]
    h3 h4 h5
  have c2: "\<exists>s' out g'. Loop_event demo_env demo_session (demo_event ''generated'' 1) = Inr (s', out) \<and>
        map_of (Replicas s') (GameID (demo_event ''generated'' 1)) = Some g' \<and> Ready g'"
    by blast
  from h1 h2 h3 h4 h5 c1 c2 show ?thesis by blast
qed

lemma active_State: "active (s\<lparr>State := x\<rparr>) = active s"
  by (simp add: active_def split: option.splits)

lemma checks_State: "checks (s\<lparr>State := x\<rparr>) evt = checks s evt"
  by (simp add: checks_def active_State)

text \<open>
  C7: a login event that passes both checks changes the session only in the idle
  phase: the phase becomes overworld, the start time is the time of the event, and
  \<open>Command\<close> is called three times on the active game, first with the broadcast of
  the attempt number, then with \<open>/time set 0\<close>, then with \<open>/save-off\<close>. Each call
  attaches to the container of the active game and writes its line when the attach
  succeeds. In any other phase nothing changes, no attach is made and nothing is
  written.
\<close>

theorem login_event:
  assumes "Type evt = ''login''" and "checks s evt = None"
  shows "(State s = [] \<longrightarrow>
            (\<exists>p g. active s = Some (p, g) \<and> ID g = GameID evt \<and>
               (let broadcast =
                      ''/tellraw @a ''
                      @ Marshal e [\<lparr>Text = ''attempt #'' @ show_int (sint (Attempt (Data s))),
                                     Color = ''green''\<rparr>]
                in Loop_event e s evt =
                     Inr (s\<lparr>State := ''overworld'', TimeStart := Timestamp evt\<rparr>,
                          [received evt, ContainerAttach (Name g)]
                          @ (if Attach e (Name g) broadcast = None
                             then [Stdin (Name g) (broadcast @ [CHR 0x0A])] else [])
                          @ [ContainerAttach (Name g)]
                          @ (if Attach e (Name g) ''/time set 0'' = None
                             then [Stdin (Name g) (''/time set 0'' @ [CHR 0x0A])] else [])
                          @ [ContainerAttach (Name g)]
                          @ (if Attach e (Name g) ''/save-off'' = None
                             then [Stdin (Name g) (''/save-off'' @ [CHR 0x0A])] else [])))))
       \<and> (State s \<noteq> [] \<longrightarrow> Loop_event e s evt = Inr (s, [received evt]))"
proof -
  from assms obtain p g where a: "active s = Some (p, g)" "ID g = GameID evt"
    by (auto elim: checks_active)
  show ?thesis
    by (simp add: Loop_event_pass [OF assms(2)] dispatch_login [OF assms(1)] a Say_def Command_def
        Let_def split: option.splits)
qed

theorem login_event_witness:
  "Type (demo_event ''login'' 0) = ''login'' \<and> checks demo_session (demo_event ''login'' 0) = None \<and>
   State demo_session = [] \<and>
   Loop_event demo_env demo_session (demo_event ''login'' 0) =
     Inr (demo_session\<lparr>State := ''overworld'', TimeStart := demo_now\<rparr>,
          [received (demo_event ''login'' 0),
           ContainerAttach ''mcspeedrun_0'',
           Stdin ''mcspeedrun_0'' (''/tellraw @a attempt #4'' @ [CHR 0x0A]),
           ContainerAttach ''mcspeedrun_0'',
           Stdin ''mcspeedrun_0'' (''/time set 0'' @ [CHR 0x0A]),
           ContainerAttach ''mcspeedrun_0'',
           Stdin ''mcspeedrun_0'' (''/save-off'' @ [CHR 0x0A])]) \<and>
   Loop_event demo_env_down demo_session (demo_event ''login'' 0) =
     Inr (demo_session\<lparr>State := ''overworld'', TimeStart := demo_now\<rparr>,
          [received (demo_event ''login'' 0),
           ContainerAttach ''mcspeedrun_0'',
           ContainerAttach ''mcspeedrun_0'',
           ContainerAttach ''mcspeedrun_0'']) \<and>
   State (demo_session\<lparr>State := ''nether''\<rparr>) \<noteq> [] \<and>
   checks (demo_session\<lparr>State := ''nether''\<rparr>) (demo_event ''login'' 0) = None \<and>
   Loop_event demo_env (demo_session\<lparr>State := ''nether''\<rparr>) (demo_event ''login'' 0) =
     Inr (demo_session\<lparr>State := ''nether''\<rparr>, [received (demo_event ''login'' 0)])"
proof -
  have h1: "Type (demo_event ''login'' 0) = ''login''" by (simp add: demo_event_def)
  have h2: "State demo_session = []" by (simp add: demo_session_def)
  have h3: "checks (demo_session\<lparr>State := ''nether''\<rparr>) (demo_event ''login'' 0) = None"
    using demo_checks [of "''login''"] by (simp add: checks_State)
  have n: "show_int (sint (Attempt (Data demo_session))) = ''4''"
    by (simp add: demo_session_def show_int_def show_nat.simps digit_char_def)
  have t: "Timestamp (demo_event ''login'' 0) = demo_now" by (simp add: demo_event_def)
  have g: "Name (demo_game 0 True) = ''mcspeedrun_0''"
    by (simp add: demo_game_def show_int_def show_nat.simps digit_char_def)
  have b: "Marshal demo_env = (\<lambda>ms. concat (map Text ms))"
    "Marshal demo_env_down = (\<lambda>ms. concat (map Text ms))"
    by (simp_all add: demo_env_def demo_env_down_def)
  have up: "Attach demo_env = (\<lambda>n c. None)" by (simp add: demo_env_def)
  have down: "Attach demo_env_down = (\<lambda>n c. Some ''no such container'')"
    by (simp add: demo_env_down_def)
  from login_event [OF h1 demo_checks, of demo_env] h2 demo_active
  have c1: "Loop_event demo_env demo_session (demo_event ''login'' 0) =
     Inr (demo_session\<lparr>State := ''overworld'', TimeStart := demo_now\<rparr>,
          [received (demo_event ''login'' 0),
           ContainerAttach ''mcspeedrun_0'',
           Stdin ''mcspeedrun_0'' (''/tellraw @a attempt #4'' @ [CHR 0x0A]),
           ContainerAttach ''mcspeedrun_0'',
           Stdin ''mcspeedrun_0'' (''/time set 0'' @ [CHR 0x0A]),
           ContainerAttach ''mcspeedrun_0'',
           Stdin ''mcspeedrun_0'' (''/save-off'' @ [CHR 0x0A])])"
    by (simp add: Let_def n b t g up)
  from login_event [OF h1 demo_checks, of demo_env_down] h2 demo_active
  have c1': "Loop_event demo_env_down demo_session (demo_event ''login'' 0) =
     Inr (demo_session\<lparr>State := ''overworld'', TimeStart := demo_now\<rparr>,
          [received (demo_event ''login'' 0),
           ContainerAttach ''mcspeedrun_0'',
           ContainerAttach ''mcspeedrun_0'',
           ContainerAttach ''mcspeedrun_0''])"
    by (simp add: Let_def n b t g down)
  from login_event [OF h1 h3, of demo_env]
  have c2: "Loop_event demo_env (demo_session\<lparr>State := ''nether''\<rparr>) (demo_event ''login'' 0) =
     Inr (demo_session\<lparr>State := ''nether''\<rparr>, [received (demo_event ''login'' 0)])"
    by simp
  from h1 h2 h3 demo_checks c1 c1' c2 show ?thesis by simp
qed

text \<open>
  C10: when an event of a type other than \<open>generated\<close> reaches the \<open>switch\<close>, the
  active pointer is not nil, it points at a game of the map, and the id of that game
  is the \<open>GameID\<close> of the event; so no case of the \<open>switch\<close> dereferences nil
  and the pass through the loop does not panic.
\<close>

theorem dispatched_event_has_active:
  assumes "checks s evt = None" and "Type evt \<noteq> ''generated''"
  shows "(\<exists>p g. Active s = Some p \<and> map_of (Replicas s) p = Some g \<and> ID g = GameID evt)
         \<and> (\<forall>f. dispatch e s evt \<noteq> Inl f) \<and> (\<forall>f. Loop_event e s evt \<noteq> Inl f)"
proof -
  from assms obtain p g where a: "active s = Some (p, g)" "ID g = GameID evt"
    by (auto elim: checks_active)
  from a(1) have ptr: "Active s = Some p \<and> map_of (Replicas s) p = Some g"
    by (auto simp: active_def split: option.splits)
  have d: "\<forall>f. dispatch e s evt \<noteq> Inl f"
    using a(1) assms(2) by (simp add: dispatch_def Reset_def)
  then have "\<forall>f. Loop_event e s evt \<noteq> Inl f"
    by (auto simp: Loop_event_pass [OF assms(1)] split: sum.splits)
  with ptr a(2) d show ?thesis by blast
qed

theorem dispatched_event_has_active_witness:
  "checks demo_session (demo_event ''cmd.pearl'' 0) = None \<and>
   Type (demo_event ''cmd.pearl'' 0) \<noteq> ''generated'' \<and>
   (\<exists>p g. Active demo_session = Some p \<and> map_of (Replicas demo_session) p = Some g
      \<and> ID g = GameID (demo_event ''cmd.pearl'' 0)) \<and>
   (\<forall>f. dispatch demo_env demo_session (demo_event ''cmd.pearl'' 0) \<noteq> Inl f) \<and>
   (\<forall>f. Loop_event demo_env demo_session (demo_event ''cmd.pearl'' 0) \<noteq> Inl f)"
proof -
  have h: "Type (demo_event ''cmd.pearl'' 0) \<noteq> ''generated''" by (simp add: demo_event_def)
  from dispatched_event_has_active [OF demo_checks h, of demo_env] demo_checks h
  show ?thesis by blast
qed

lemma dispatch_advance:
  assumes "checks s evt = None" and "dispatch e s evt = Inr (s', out)"
  shows "(Type evt = ''login'' \<and> State s = [] \<longrightarrow> State s' = ''overworld'')
       \<and> (Type evt = ''nether'' \<and> State s = ''overworld'' \<longrightarrow> State s' = ''nether'')
       \<and> (Type evt = ''end'' \<and> State s = ''nether'' \<longrightarrow> State s' = ''end'')
       \<and> (Type evt = ''credits'' \<and> State s = ''end'' \<longrightarrow> State s' = ''credits'')
       \<and> (Type evt = ''cmd.reset'' \<longrightarrow> State s' = [])"
proof (cases "Type evt = ''generated''")
  case True
  then show ?thesis by simp
next
  case False
  with assms(1) obtain p g where a: "active s = Some (p, g)" by (auto elim: checks_active)
  from assms(2) show ?thesis
    by (auto simp: dispatch_def Reset_def a split: if_splits)
qed

lemma Loop_pass:
  assumes "Loop e xs s = (ss, out, r)" and "Suc i < length ss"
  shows "i < length xs \<and>
         (\<exists>stop o1. Loop_body e (fst (xs ! i)) (snd (xs ! i)) (ss ! i) = Inr (stop, ss ! Suc i, o1))"
  using assms
proof (induction xs arbitrary: s ss out r i)
  case Nil
  then show ?case by auto
next
  case (Cons x xs)
  obtain keys inp where x: "x = (keys, inp)" by (cases x)
  show ?case
  proof (cases "Loop_body e keys inp s")
    case (Inl f)
    with Cons.prems x show ?thesis by auto
  next
    case (Inr t)
    then obtain stop s' o1 where body: "Loop_body e keys inp s = Inr (stop, s', o1)"
      by (cases t) auto
    show ?thesis
    proof (cases stop)
      case True
      with Cons.prems x body have "ss = [s, s']" by auto
      with Cons.prems(2) body x show ?thesis by auto
    next
      case False
      obtain ss' o2 r' where rest: "Loop e xs s' = (ss', o2, r')" by (cases "Loop e xs s'")
      with Cons.prems(1) x body False have ss: "ss = s # ss'" by auto
      from Loop_hd [of e xs s'] rest have hd: "ss' \<noteq> []" "hd ss' = s'" by simp_all
      show ?thesis
      proof (cases i)
        case 0
        with ss hd body x show ?thesis by (auto simp: hd_conv_nth)
      next
        case (Suc j)
        with Cons.prems(2) ss have "Suc j < length ss'" by simp
        from Cons.IH [OF rest this] Suc ss x show ?thesis by simp
      qed
    qed
  qed
qed

lemma Loop_pass_advance:
  assumes "Loop e xs s = (ss, out, r)" and "Suc i < length ss"
    and "xs ! i = (keys, Recv evt)" and "checks (fst (Loop_select keys (ss ! i))) evt = None"
  shows "(Type evt = ''login'' \<and> State (ss ! i) = [] \<longrightarrow> State (ss ! Suc i) = ''overworld'')
       \<and> (Type evt = ''nether'' \<and> State (ss ! i) = ''overworld'' \<longrightarrow> State (ss ! Suc i) = ''nether'')
       \<and> (Type evt = ''end'' \<and> State (ss ! i) = ''nether'' \<longrightarrow> State (ss ! Suc i) = ''end'')
       \<and> (Type evt = ''credits'' \<and> State (ss ! i) = ''end'' \<longrightarrow> State (ss ! Suc i) = ''credits'')
       \<and> (Type evt = ''cmd.reset'' \<longrightarrow> State (ss ! Suc i) = [])"
proof -
  let ?s1 = "fst (Loop_select keys (ss ! i))"
  from Loop_pass [OF assms(1,2)] assms(3) obtain stop o1 where
    "Loop_body e keys (Recv evt) (ss ! i) = Inr (stop, ss ! Suc i, o1)" by auto
  then obtain o2 where "Loop_event e ?s1 evt = Inr (ss ! Suc i, o2)"
    by (auto simp: Loop_body_def split: prod.splits sum.splits)
  with assms(4) obtain o3 where "dispatch e ?s1 evt = Inr (ss ! Suc i, o3)"
    by (auto simp: Loop_event_pass split: sum.splits)
  from dispatch_advance [OF assms(4) this] show ?thesis
    by (simp add: Loop_select_State)
qed

lemma Loop_select_active: "active s = Some a \<Longrightarrow> Loop_select keys s = (s, [])"
  by (simp add: Loop_select_def)

text \<open>
  C2: along every run of the loop, from any session and over any inputs, two
  successive sessions have phases related by \<open>phase_step\<close> for the event between
  them: the phase stays, or moves one step forward on the matching event, or goes
  back to idle on a reset. Only a reset leads from a phase other than idle to idle,
  and a login, nether, end or credits event met in any phase but the one just before
  its own leaves the phase as it is. An event that passes both checks does make its
  move: a login in the idle phase leads to overworld, a nether event in overworld to
  nether, an end event in nether to end, a credits event in end to credits, and a
  reset in any phase to idle.
\<close>

theorem phase_moves:
  assumes "Loop e xs s = (ss, out, r)" and "Suc i < length ss"
  shows "i < length xs
     \<and> phase_step (State (ss ! i)) (input_type (snd (xs ! i))) (State (ss ! Suc i))
     \<and> (State (ss ! Suc i) = [] \<and> State (ss ! i) \<noteq> [] \<longrightarrow> input_type (snd (xs ! i)) = ''cmd.reset'')
     \<and> (input_type (snd (xs ! i)) = ''login'' \<and> State (ss ! i) \<noteq> []
          \<longrightarrow> State (ss ! Suc i) = State (ss ! i))
     \<and> (input_type (snd (xs ! i)) = ''nether'' \<and> State (ss ! i) \<noteq> ''overworld''
          \<longrightarrow> State (ss ! Suc i) = State (ss ! i))
     \<and> (input_type (snd (xs ! i)) = ''end'' \<and> State (ss ! i) \<noteq> ''nether''
          \<longrightarrow> State (ss ! Suc i) = State (ss ! i))
     \<and> (input_type (snd (xs ! i)) = ''credits'' \<and> State (ss ! i) \<noteq> ''end''
          \<longrightarrow> State (ss ! Suc i) = State (ss ! i))
     \<and> (\<forall>keys evt.
           xs ! i = (keys, Recv evt) \<and> checks (fst (Loop_select keys (ss ! i))) evt = None \<longrightarrow>
             (Type evt = ''login'' \<and> State (ss ! i) = [] \<longrightarrow> State (ss ! Suc i) = ''overworld'')
           \<and> (Type evt = ''nether'' \<and> State (ss ! i) = ''overworld''
                \<longrightarrow> State (ss ! Suc i) = ''nether'')
           \<and> (Type evt = ''end'' \<and> State (ss ! i) = ''nether'' \<longrightarrow> State (ss ! Suc i) = ''end'')
           \<and> (Type evt = ''credits'' \<and> State (ss ! i) = ''end''
                \<longrightarrow> State (ss ! Suc i) = ''credits'')
           \<and> (Type evt = ''cmd.reset'' \<longrightarrow> State (ss ! Suc i) = []))"
proof -
  from Loop_phases [OF assms]
  have i: "i < length xs"
    and p: "phase_step (State (ss ! i)) (input_type (snd (xs ! i))) (State (ss ! Suc i))"
    by simp_all
  from p have b1: "State (ss ! Suc i) = [] \<and> State (ss ! i) \<noteq> []
      \<longrightarrow> input_type (snd (xs ! i)) = ''cmd.reset''"
    unfolding phase_step_def by auto
  from p have b2: "input_type (snd (xs ! i)) = ''login'' \<and> State (ss ! i) \<noteq> []
      \<longrightarrow> State (ss ! Suc i) = State (ss ! i)"
    unfolding phase_step_def by auto
  from p have b3: "input_type (snd (xs ! i)) = ''nether'' \<and> State (ss ! i) \<noteq> ''overworld''
      \<longrightarrow> State (ss ! Suc i) = State (ss ! i)"
    unfolding phase_step_def by auto
  from p have b4: "input_type (snd (xs ! i)) = ''end'' \<and> State (ss ! i) \<noteq> ''nether''
      \<longrightarrow> State (ss ! Suc i) = State (ss ! i)"
    unfolding phase_step_def by auto
  from p have b5: "input_type (snd (xs ! i)) = ''credits'' \<and> State (ss ! i) \<noteq> ''end''
      \<longrightarrow> State (ss ! Suc i) = State (ss ! i)"
    unfolding phase_step_def by auto
  have adv: "\<forall>keys evt.
           xs ! i = (keys, Recv evt) \<and> checks (fst (Loop_select keys (ss ! i))) evt = None \<longrightarrow>
             (Type evt = ''login'' \<and> State (ss ! i) = [] \<longrightarrow> State (ss ! Suc i) = ''overworld'')
           \<and> (Type evt = ''nether'' \<and> State (ss ! i) = ''overworld''
                \<longrightarrow> State (ss ! Suc i) = ''nether'')
           \<and> (Type evt = ''end'' \<and> State (ss ! i) = ''nether'' \<longrightarrow> State (ss ! Suc i) = ''end'')
           \<and> (Type evt = ''credits'' \<and> State (ss ! i) = ''end''
                \<longrightarrow> State (ss ! Suc i) = ''credits'')
           \<and> (Type evt = ''cmd.reset'' \<longrightarrow> State (ss ! Suc i) = [])"
  proof (intro allI impI)
    fix keys evt
    assume "xs ! i = (keys, Recv evt) \<and> checks (fst (Loop_select keys (ss ! i))) evt = None"
    then have a: "xs ! i = (keys, Recv evt)"
      and c: "checks (fst (Loop_select keys (ss ! i))) evt = None"
      by (rule conjunct1, rule conjunct2)
    show "(Type evt = ''login'' \<and> State (ss ! i) = [] \<longrightarrow> State (ss ! Suc i) = ''overworld'')
           \<and> (Type evt = ''nether'' \<and> State (ss ! i) = ''overworld''
                \<longrightarrow> State (ss ! Suc i) = ''nether'')
           \<and> (Type evt = ''end'' \<and> State (ss ! i) = ''nether'' \<longrightarrow> State (ss ! Suc i) = ''end'')
           \<and> (Type evt = ''credits'' \<and> State (ss ! i) = ''end''
                \<longrightarrow> State (ss ! Suc i) = ''credits'')
           \<and> (Type evt = ''cmd.reset'' \<longrightarrow> State (ss ! Suc i) = [])"
      by (rule Loop_pass_advance [OF assms a c])
  qed
  show ?thesis
    by (rule conjI [OF i conjI [OF p conjI [OF b1 conjI [OF b2 conjI [OF b3 conjI [OF b4 conjI [OF b5 adv]]]]]]])
qed

lemma Loop_Recv:
  assumes "Loop_select keys s = (s1, o1)" and "Loop_event e s1 evt = Inr (s2, o2)"
  shows "fst (Loop e ((keys, Recv evt) # xs) s) = s # fst (Loop e xs s2)"
  using assms by (simp add: Loop_body_def split: prod.splits)

lemma demo_phase_active: "active (demo_phase p) = Some (0, demo_game 0 True)"
  by (simp add: active_def demo_phase_def demo_session_def)

lemma demo_phase_select: "Loop_select keys (demo_phase p) = (demo_phase p, [])"
  by (rule Loop_select_active [OF demo_phase_active])

lemma demo_phase_checks: "checks (demo_phase p) (demo_event ty 0) = None"
  by (simp add: checks_def demo_phase_active) (simp add: demo_phase_def demo_session_def demo_event_def demo_game_def)

lemma demo_select: "Loop_select keys demo_session = (demo_session, [])"
  by (rule Loop_select_active [OF demo_active])

lemma demo_step_login:
  "\<exists>out. Loop_event demo_env demo_session (demo_event ''login'' 0) = Inr (demo_phase ''overworld'', out)"
  by (simp add: Loop_event_pass [OF demo_checks] dispatch_def demo_active)
     (simp add: demo_event_def demo_session_def demo_phase_def)

lemma demo_step_ignored:
  "\<exists>out. Loop_event demo_env (demo_phase ''overworld'') (demo_event ''credits'' 0) =
     Inr (demo_phase ''overworld'', out)"
  by (simp add: Loop_event_pass [OF demo_phase_checks] dispatch_def demo_phase_active)
     (simp add: demo_event_def demo_session_def demo_phase_def)

lemma demo_step_nether:
  "\<exists>out. Loop_event demo_env (demo_phase ''overworld'') (demo_event ''nether'' 0) =
     Inr (demo_phase ''nether'', out)"
  by (simp add: Loop_event_pass [OF demo_phase_checks] dispatch_def demo_phase_active)
     (simp add: demo_event_def demo_session_def demo_phase_def)

lemma demo_step_end:
  "\<exists>out. Loop_event demo_env (demo_phase ''nether'') (demo_event ''end'' 0) =
     Inr (demo_phase ''end'', out)"
  by (simp add: Loop_event_pass [OF demo_phase_checks] dispatch_def demo_phase_active)
     (simp add: demo_event_def demo_session_def demo_phase_def)

lemma demo_step_credits:
  "\<exists>out. Loop_event demo_env (demo_phase ''end'') (demo_event ''credits'' 0) =
     Inr (demo_phase ''credits'', out)"
  by (simp add: Loop_event_pass [OF demo_phase_checks] dispatch_def demo_phase_active)
     (simp add: demo_event_def demo_session_def demo_phase_def)

lemma demo_step_reset:
  "\<exists>out. Loop_event demo_env (demo_phase ''credits'') (demo_event ''cmd.reset'' 0) =
     Inr (demo_after_reset, out)"
  by (simp add: Loop_event_pass [OF demo_phase_checks] dispatch_def demo_phase_active Reset_def)
     (simp add: demo_event_def demo_session_def demo_phase_def demo_after_reset_def demo_game_def)

lemma demo_chain_states:
  "fst (Loop demo_env demo_chain demo_session) =
     [demo_session, demo_phase ''overworld'', demo_phase ''overworld'', demo_phase ''nether'',
      demo_phase ''end'', demo_phase ''credits'', demo_after_reset]"
proof -
  from demo_step_login obtain o1 where e1:
    "Loop_event demo_env demo_session (demo_event ''login'' 0) = Inr (demo_phase ''overworld'', o1)" ..
  from demo_step_ignored obtain o2 where e2:
    "Loop_event demo_env (demo_phase ''overworld'') (demo_event ''credits'' 0) =
     Inr (demo_phase ''overworld'', o2)" ..
  from demo_step_nether obtain o3 where e3:
    "Loop_event demo_env (demo_phase ''overworld'') (demo_event ''nether'' 0) =
     Inr (demo_phase ''nether'', o3)" ..
  from demo_step_end obtain o4 where e4:
    "Loop_event demo_env (demo_phase ''nether'') (demo_event ''end'' 0) = Inr (demo_phase ''end'', o4)" ..
  from demo_step_credits obtain o5 where e5:
    "Loop_event demo_env (demo_phase ''end'') (demo_event ''credits'' 0) =
     Inr (demo_phase ''credits'', o5)" ..
  from demo_step_reset obtain o6 where e6:
    "Loop_event demo_env (demo_phase ''credits'') (demo_event ''cmd.reset'' 0) =
     Inr (demo_after_reset, o6)" ..
  show ?thesis
    unfolding demo_chain_def
    by (simp only: Loop_Recv [OF demo_select e1] Loop_Recv [OF demo_phase_select e2]
        Loop_Recv [OF demo_phase_select e3] Loop_Recv [OF demo_phase_select e4]
        Loop_Recv [OF demo_phase_select e5] Loop_Recv [OF demo_phase_select e6]) simp
qed

theorem phase_moves_witness:
  "\<exists>ss out r. Loop demo_env demo_chain demo_session = (ss, out, r) \<and> Suc 5 < length ss
     \<and> checks (fst (Loop_select [0, 1] (ss ! 0))) (demo_event ''login'' 0) = None
     \<and> checks (fst (Loop_select [0, 1] (ss ! 2))) (demo_event ''nether'' 0) = None
     \<and> checks (fst (Loop_select [0, 1] (ss ! 3))) (demo_event ''end'' 0) = None
     \<and> checks (fst (Loop_select [0, 1] (ss ! 4))) (demo_event ''credits'' 0) = None
     \<and> checks (fst (Loop_select [0, 1] (ss ! 5))) (demo_event ''cmd.reset'' 0) = None
     \<and> State (ss ! 0) = [] \<and> State (ss ! 1) = ''overworld'' \<and> State (ss ! 2) = ''overworld''
     \<and> State (ss ! 3) = ''nether'' \<and> State (ss ! 4) = ''end'' \<and> State (ss ! 5) = ''credits''
     \<and> State (ss ! 6) = []"
proof -
  define ss where "ss = [demo_session, demo_phase ''overworld'', demo_phase ''overworld'',
      demo_phase ''nether'', demo_phase ''end'', demo_phase ''credits'', demo_after_reset]"
  obtain out r where run: "Loop demo_env demo_chain demo_session = (ss, out, r)"
    using demo_chain_states unfolding ss_def
    by (cases "Loop demo_env demo_chain demo_session") simp
  have n: "ss ! 0 = demo_session" "ss ! 2 = demo_phase ''overworld''" "ss ! 3 = demo_phase ''nether''"
    "ss ! 4 = demo_phase ''end''" "ss ! 5 = demo_phase ''credits''"
    by (simp_all add: ss_def)
  have l: "Suc 0 < length ss" "Suc 1 < length ss" "Suc 2 < length ss" "Suc 3 < length ss"
    "Suc 4 < length ss" "Suc 5 < length ss"
    by (simp_all add: ss_def)
  have suc: "Suc 1 = 2" "Suc 2 = 3" "Suc 3 = 4" "Suc 4 = 5" "Suc 5 = 6" by simp_all
  have ty: "Type (demo_event ''login'' 0) = ''login''" "Type (demo_event ''nether'' 0) = ''nether''"
    "Type (demo_event ''end'' 0) = ''end''" "Type (demo_event ''credits'' 0) = ''credits''"
    "Type (demo_event ''cmd.reset'' 0) = ''cmd.reset''"
    by (simp_all add: demo_event_def)
  have x: "demo_chain ! 0 = ([0, 1], Recv (demo_event ''login'' 0))"
    "demo_chain ! 2 = ([0, 1], Recv (demo_event ''nether'' 0))"
    "demo_chain ! 3 = ([0, 1], Recv (demo_event ''end'' 0))"
    "demo_chain ! 4 = ([0, 1], Recv (demo_event ''credits'' 0))"
    "demo_chain ! 5 = ([0, 1], Recv (demo_event ''cmd.reset'' 0))"
    by (simp_all add: demo_chain_def)
  have it: "input_type (snd (demo_chain ! 1)) = ''credits''"
    by (simp add: demo_chain_def input_type_def demo_event_def)
  have c0: "checks (fst (Loop_select [0, 1] (ss ! 0))) (demo_event ''login'' 0) = None"
    by (simp add: n demo_select demo_checks)
  have c2: "checks (fst (Loop_select [0, 1] (ss ! 2))) (demo_event ''nether'' 0) = None"
    by (simp add: n demo_phase_select demo_phase_checks)
  have c3: "checks (fst (Loop_select [0, 1] (ss ! 3))) (demo_event ''end'' 0) = None"
    by (simp add: n demo_phase_select demo_phase_checks)
  have c4: "checks (fst (Loop_select [0, 1] (ss ! 4))) (demo_event ''credits'' 0) = None"
    by (simp add: n demo_phase_select demo_phase_checks)
  have c5: "checks (fst (Loop_select [0, 1] (ss ! 5))) (demo_event ''cmd.reset'' 0) = None"
    by (simp add: n demo_phase_select demo_phase_checks)
  have s0: "State (ss ! 0) = []" by (simp add: n demo_session_def)
  note last7 = conjunct2 [THEN conjunct2, THEN conjunct2, THEN conjunct2, THEN conjunct2,
      THEN conjunct2, THEN conjunct2]
  note adv0 = phase_moves [OF run l(1), THEN last7, THEN spec, THEN spec, THEN mp,
      OF conjI [OF x(1) c0]]
  note s1 = adv0 [THEN conjunct1, THEN mp, OF conjI [OF ty(1) s0], unfolded One_nat_def [symmetric]]
  from s1 have ne: "State (ss ! 1) \<noteq> ''end''" by simp
  note same1 = phase_moves [OF run l(2), THEN conjunct2, THEN conjunct2, THEN conjunct2,
      THEN conjunct2, THEN conjunct2, THEN conjunct2, THEN conjunct1, THEN mp, OF conjI [OF it ne]]
  note s2 = same1 [unfolded suc s1]
  note adv2 = phase_moves [OF run l(3), THEN last7, THEN spec, THEN spec, THEN mp,
      OF conjI [OF x(2) c2]]
  note s3 = adv2 [THEN conjunct2, THEN conjunct1, THEN mp, OF conjI [OF ty(2) s2], unfolded suc]
  note adv3 = phase_moves [OF run l(4), THEN last7, THEN spec, THEN spec, THEN mp,
      OF conjI [OF x(3) c3]]
  note s4 = adv3 [THEN conjunct2, THEN conjunct2, THEN conjunct1, THEN mp, OF conjI [OF ty(3) s3],
      unfolded suc]
  note adv4 = phase_moves [OF run l(5), THEN last7, THEN spec, THEN spec, THEN mp,
      OF conjI [OF x(4) c4]]
  note s5 = adv4 [THEN conjunct2, THEN conjunct2, THEN conjunct2, THEN conjunct1, THEN mp,
      OF conjI [OF ty(4) s4], unfolded suc]
  note adv5 = phase_moves [OF run l(6), THEN last7, THEN spec, THEN spec, THEN mp,
      OF conjI [OF x(5) c5]]
  note s6 = adv5 [THEN conjunct2, THEN conjunct2, THEN conjunct2, THEN conjunct2, THEN mp,
      OF ty(5), unfolded suc]
  have "Loop demo_env demo_chain demo_session = (ss, out, r) \<and> Suc 5 < length ss
     \<and> checks (fst (Loop_select [0, 1] (ss ! 0))) (demo_event ''login'' 0) = None
     \<and> checks (fst (Loop_select [0, 1] (ss ! 2))) (demo_event ''nether'' 0) = None
     \<and> checks (fst (Loop_select [0, 1] (ss ! 3))) (demo_event ''end'' 0) = None
     \<and> checks (fst (Loop_select [0, 1] (ss ! 4))) (demo_event ''credits'' 0) = None
     \<and> checks (fst (Loop_select [0, 1] (ss ! 5))) (demo_event ''cmd.reset'' 0) = None
     \<and> State (ss ! 0) = [] \<and> State (ss ! 1) = ''overworld'' \<and> State (ss ! 2) = ''overworld''
     \<and> State (ss ! 3) = ''nether'' \<and> State (ss ! 4) = ''end'' \<and> State (ss ! 5) = ''credits''
     \<and> State (ss ! 6) = []"
    by (intro conjI) (rule run l(6) c0 c2 c3 c4 c5 s0 s1 s2 s3 s4 s5 s6)+
  then show ?thesis by (intro exI)
qed

section \<open>Properties of the log parser\<close>

text \<open>\<open>Contains\<close> is the contiguous-sublist relation.\<close>

lemma Contains_sublist: "Contains s sub \<longleftrightarrow> sublist sub s"
  by (induction s) (simp_all add: sublist_Cons_right)

text \<open>
  The scan \<open>logExpression\<close> accepts exactly the lines of the shape the regular
  expression describes, and returns its three groups.
\<close>

lemma run_then_iff:
  assumes "lit \<noteq> []" and "\<not> cls (hd lit)"
  shows "run_then cls lit s = Some (r, rest) \<longleftrightarrow>
           r \<noteq> [] \<and> (\<forall>c\<in>set r. cls c) \<and> s = r @ lit @ rest"
proof
  assume a: "run_then cls lit s = Some (r, rest)"
  then have r: "r = takeWhile cls s" "r \<noteq> []" and p: "prefix lit (dropWhile cls s)"
    and d: "rest = drop (length lit) (dropWhile cls s)"
    by (auto simp: run_then_def Let_def split: if_splits)
  from p obtain z where z: "dropWhile cls s = lit @ z" by (auto simp: prefix_def)
  with d have "rest = z" by simp
  with z have "s = r @ lit @ rest"
    using takeWhile_dropWhile_id [of cls s] r(1) by simp
  moreover from r(1) have "\<forall>c\<in>set r. cls c" by (auto dest: set_takeWhileD)
  ultimately show "r \<noteq> [] \<and> (\<forall>c\<in>set r. cls c) \<and> s = r @ lit @ rest" using r(2) by simp
next
  assume a: "r \<noteq> [] \<and> (\<forall>c\<in>set r. cls c) \<and> s = r @ lit @ rest"
  from assms obtain x l where l: "lit = x # l" "\<not> cls x" by (cases lit) auto
  from a l have t: "takeWhile cls s = r"
    by (simp add: takeWhile_append2)
  from a l have d: "dropWhile cls s = lit @ rest"
    by (simp add: dropWhile_append2)
  from a t d show "run_then cls lit s = Some (r, rest)"
    by (simp add: run_then_def Let_def)
qed

lemma not_digit_colon: "\<not> is_digit CHR '':''" and not_digit_bracket: "\<not> is_digit CHR '']''"
  and not_thread_bracket: "\<not> is_thread CHR '']''"
  by (simp_all add: is_digit_def is_thread_def is_word_def is_space_def byte_def)

lemma logExpression_iff:
  "logExpression line = Some (ts, thr, msg) \<longleftrightarrow>
     (\<exists>h m sec.
        h \<noteq> [] \<and> (\<forall>c\<in>set h. is_digit c) \<and> m \<noteq> [] \<and> (\<forall>c\<in>set m. is_digit c) \<and>
        sec \<noteq> [] \<and> (\<forall>c\<in>set sec. is_digit c) \<and> ts = h @ '':'' @ m @ '':'' @ sec \<and>
        thr \<noteq> [] \<and> (\<forall>c\<in>set thr. is_thread c) \<and> msg \<noteq> [] \<and> CHR 0x0A \<notin> set msg \<and>
        line = ''['' @ ts @ ''] ['' @ thr @ '']: '' @ msg)"
  (is "?L \<longleftrightarrow> ?R")
proof
  assume ?L
  then obtain c s0 where line: "line = c # s0" and c: "c = CHR ''[''"
    by (auto simp: logExpression_def split: list.splits if_splits)
  from \<open>?L\<close> line c obtain h s1 m s2 sec s3 where
    r1: "run_then is_digit '':'' s0 = Some (h, s1)" and
    r2: "run_then is_digit '':'' s1 = Some (m, s2)" and
    r3: "run_then is_digit ''] ['' s2 = Some (sec, s3)" and
    r4: "run_then is_thread '']: '' s3 = Some (thr, msg)" and
    msg: "msg \<noteq> []" "CHR 0x0A \<notin> set msg" and ts: "ts = h @ '':'' @ m @ '':'' @ sec"
    by (auto simp: logExpression_def split: option.splits if_splits)
  from r1 have 1: "h \<noteq> [] \<and> (\<forall>c\<in>set h. is_digit c) \<and> s0 = h @ '':'' @ s1"
    by (subst (asm) run_then_iff) (simp_all add: not_digit_colon)
  from r2 have 2: "m \<noteq> [] \<and> (\<forall>c\<in>set m. is_digit c) \<and> s1 = m @ '':'' @ s2"
    by (subst (asm) run_then_iff) (simp_all add: not_digit_colon)
  from r3 have 3: "sec \<noteq> [] \<and> (\<forall>c\<in>set sec. is_digit c) \<and> s2 = sec @ ''] ['' @ s3"
    by (subst (asm) run_then_iff) (simp_all add: not_digit_bracket)
  from r4 have 4: "thr \<noteq> [] \<and> (\<forall>c\<in>set thr. is_thread c) \<and> s3 = thr @ '']: '' @ msg"
    by (subst (asm) run_then_iff) (simp_all add: not_thread_bracket)
  from 1 2 3 4 line c ts have "line = ''['' @ ts @ ''] ['' @ thr @ '']: '' @ msg" by simp
  with 1 2 3 4 msg ts show ?R by blast
next
  assume ?R
  then obtain h m sec where
    1: "h \<noteq> []" "\<forall>c\<in>set h. is_digit c" and 2: "m \<noteq> []" "\<forall>c\<in>set m. is_digit c" and
    3: "sec \<noteq> []" "\<forall>c\<in>set sec. is_digit c" and ts: "ts = h @ '':'' @ m @ '':'' @ sec" and
    4: "thr \<noteq> []" "\<forall>c\<in>set thr. is_thread c" and msg: "msg \<noteq> []" "CHR 0x0A \<notin> set msg" and
    line: "line = ''['' @ ts @ ''] ['' @ thr @ '']: '' @ msg"
    by blast
  let ?s3 = "thr @ '']: '' @ msg"
  let ?s2 = "sec @ ''] ['' @ ?s3"
  let ?s1 = "m @ '':'' @ ?s2"
  let ?s0 = "h @ '':'' @ ?s1"
  have r1: "run_then is_digit '':'' ?s0 = Some (h, ?s1)"
    by (subst run_then_iff) (simp_all add: not_digit_colon 1)
  have r2: "run_then is_digit '':'' ?s1 = Some (m, ?s2)"
    by (subst run_then_iff) (simp_all add: not_digit_colon 2)
  have r3: "run_then is_digit ''] ['' ?s2 = Some (sec, ?s3)"
    by (subst run_then_iff) (simp_all add: not_digit_bracket 3)
  have r4: "run_then is_thread '']: '' ?s3 = Some (thr, msg)"
    by (subst run_then_iff) (simp_all add: not_thread_bracket 4)
  from line ts have "line = CHR ''['' # ?s0" by simp
  then show ?L
    by (simp only: logExpression_def list.case r1 r2 r3 r4 option.case prod.case) (simp add: msg ts)
qed

lemma retime_logExpression:
  "logExpression retime_line = Some (''12:34:56'', ''Server thread/INFO'', retime_text)"
  by (simp add: logExpression_def retime_line_def retime_text_def run_then_def is_digit_def byte_def
      is_thread_def is_word_def is_space_def)

lemma retime_time: "time_Parse ''12:34:56'' = Inr (12, 34, 56)"
  by (simp add: time_Parse_def getnum_def skip_colon_def is_digit_def digit_val_def byte_def)

lemma retime_Contains: "Contains retime_text '': Set the time to 0]''"
  by (simp add: retime_text_def)

lemma retime_not_reset: "\<not> Contains retime_text ''> rr''"
  by (simp add: retime_text_def)

lemma classify_first_match: "classify text = first_match code_rules text"
  by (simp add: classify_def code_rules_def help_phrase_def)


lemma HandleLog_parsed:
  assumes "logExpression line = Some (ts, thr, text)" and "time_Parse ts = Inr (h, m, sec)"
  shows "HandleLog now g line =
     Printf ''[%s] %s'' [S (Name g), S line] #
     (if classify text \<noteq> []
      then [Send \<lparr>GameID = ID g,
                  Timestamp = \<lparr>Year = Year now, Month = Month now, Day = Day now,
                               Hour = int h, Minute = int m, Second = int sec,
                               Nanosecond = Nanosecond now\<rparr>,
                  Type = classify text, Payload = text\<rparr>]
      else [])"
  using assms by (simp add: HandleLog_def Let_def)

lemma classify_retime:
  "Contains text '': Set the time to 0]'' \<Longrightarrow> \<not> Contains text ''> rr'' \<Longrightarrow>
   classify text = ''cmd.retime''"
  by (simp add: classify_def)



text \<open>
  C3 as stated fails: for the sample line no phrase of the six-rule table occurs in
  the message, yet \<open>HandleLog\<close> sends an event, of type \<open>cmd.retime\<close>.
\<close>

theorem HandleLog_spec_table_counterexample:
  "logExpression retime_line = Some (''12:34:56'', ''Server thread/INFO'', retime_text) \<and>
   first_match spec_rules retime_text = [] \<and>
   sends (HandleLog demo_now (demo_game 0 True) retime_line) =
     [\<lparr>GameID = 0,
       Timestamp = \<lparr>Year = 2020, Month = 5, Day = 17, Hour = 12, Minute = 34, Second = 56,
                    Nanosecond = 77\<rparr>,
       Type = ''cmd.retime'', Payload = retime_text\<rparr>]"
proof -
  have n: "first_match spec_rules retime_text = []"
    by (simp add: spec_rules_def help_phrase_def retime_text_def)
  have c: "classify retime_text = ''cmd.retime''"
    by (rule classify_retime [OF retime_Contains retime_not_reset])
  have "sends (HandleLog demo_now (demo_game 0 True) retime_line) =
     [\<lparr>GameID = 0,
       Timestamp = \<lparr>Year = 2020, Month = 5, Day = 17, Hour = 12, Minute = 34, Second = 56,
                    Nanosecond = 77\<rparr>,
       Type = ''cmd.retime'', Payload = retime_text\<rparr>]"
    by (simp add: HandleLog_parsed [OF retime_logExpression retime_time] c demo_now_def demo_game_def)
  with n retime_logExpression show ?thesis by simp
qed

text \<open>
  C3, amended: \<open>HandleLog\<close> sends at most one event per line. It sends none when the
  envelope or the time does not parse or no phrase occurs in the message; otherwise
  the type is that of the first phrase of the seven-rule table \<open>code_rules\<close> that
  occurs in the message: reset, set-time, generation-complete, player-joined,
  nether, end, credits.
\<close>

theorem HandleLog_first_match:
  "sends (HandleLog now g line) =
     (case logExpression line of
        None \<Rightarrow> []
      | Some (ts, thr, text) \<Rightarrow>
          (case time_Parse ts of
             Inl err \<Rightarrow> []
           | Inr (h, m, sec) \<Rightarrow>
               if first_match code_rules text = [] then []
               else [\<lparr>GameID = ID g,
                      Timestamp = \<lparr>Year = Year now, Month = Month now, Day = Day now,
                                   Hour = int h, Minute = int m, Second = int sec,
                                   Nanosecond = Nanosecond now\<rparr>,
                      Type = first_match code_rules text, Payload = text\<rparr>]))
   \<and> length (sends (HandleLog now g line)) \<le> 1"
  by (simp add: HandleLog_def Let_def classify_first_match split: option.splits sum.splits)

section \<open>Properties of the proxy and of the selection\<close>

text \<open>
  C8: in the accept loop, a connection accepted while the read of \<open>proxyAddr\<close> at
  the test gives the empty string contributes exactly the close of that connection:
  no dial, no copy in either direction, and the loop goes on with the next accept.
\<close>

theorem empty_target_closes:
  assumes "\<forall>x\<in>set pre. \<exists>c'. fst x = Accepted c'" and "at_check r = []"
  shows "accept_loop dial (pre @ (Accepted c, r) # rest) =
           accept_loop dial pre @ ConnClose (Fd c) # accept_loop dial rest"
  using assms(1)
proof (induction pre)
  case Nil
  from assms(2) show ?case by simp
next
  case (Cons x pre)
  then obtain c' r' where x: "x = (Accepted c', r')" by (cases x) auto
  from Cons have "accept_loop dial (pre @ (Accepted c, r) # rest) =
           accept_loop dial pre @ ConnClose (Fd c) # accept_loop dial rest"
    by simp
  then show ?case by (simp add: x)
qed

theorem empty_target_closes_witness:
  "at_check (demo_reads []) = [] \<and>
   accept_loop demo_dial
     ([(Accepted (demo_conn 3), demo_reads ''172.17.0.2'')] @ (Accepted (demo_conn 4), demo_reads [])
       # [(AcceptError ''closed'', demo_reads [])]) =
     [Printf ''%s -> %s'' [S ''192.0.2.1:50000'', S ''172.17.0.2''],
      Dial ''172.17.0.2:25565'', Copy 9 3, Copy 3 9, ConnClose 3, ConnClose 9,
      ConnClose 4,
      Printf ''[proxy] error accepting connection: %s'' [Err ''closed'']]"
proof -
  have h1: "\<forall>x\<in>set [(Accepted (demo_conn 3), demo_reads ''172.17.0.2'')]. \<exists>c'. fst x = Accepted c'"
    by simp
  have h2: "at_check (demo_reads []) = []" by (simp add: demo_reads_def)
  from empty_target_closes [OF h1 h2, of demo_dial "demo_conn 4" "[(AcceptError ''closed'', demo_reads [])]"]
  have "accept_loop demo_dial
     ([(Accepted (demo_conn 3), demo_reads ''172.17.0.2'')] @ (Accepted (demo_conn 4), demo_reads [])
       # [(AcceptError ''closed'', demo_reads [])]) =
     [Printf ''%s -> %s'' [S ''192.0.2.1:50000'', S ''172.17.0.2''],
      Dial ''172.17.0.2:25565'', Copy 9 3, Copy 3 9, ConnClose 3, ConnClose 9,
      ConnClose 4,
      Printf ''[proxy] error accepting connection: %s'' [Err ''closed'']]"
    by (simp add: demo_reads_def demo_conn_def demo_dial_def relay_def)
  with h2 show ?thesis by blast
qed

lemma range_ready_Some:
  assumes "range_ready keys reps = Some (k, g)"
  shows "map_of reps k = Some g \<and> Ready g \<and>
         (\<exists>pre post. keys = pre @ k # post \<and>
            (\<forall>k'\<in>set pre. \<forall>g'. map_of reps k' = Some g' \<longrightarrow> \<not> Ready g'))"
  using assms
proof (induction keys)
  case Nil
  then show ?case by simp
next
  case (Cons a keys)
  show ?case
  proof (cases "\<exists>ga. map_of reps a = Some ga \<and> Ready ga")
    case True
    with Cons.prems have "a = k" "map_of reps k = Some g" "Ready g" by auto
    then have "a # keys = [] @ k # keys" by simp
    with \<open>map_of reps k = Some g\<close> \<open>Ready g\<close> show ?thesis by fastforce
  next
    case False
    with Cons.prems have "range_ready keys reps = Some (k, g)"
      by (auto split: option.splits if_splits)
    from Cons.IH [OF this] obtain pre post where
      p: "map_of reps k = Some g" "Ready g" "keys = pre @ k # post"
         "\<forall>k'\<in>set pre. \<forall>g'. map_of reps k' = Some g' \<longrightarrow> \<not> Ready g'"
      by blast
    from p(3) have "a # keys = (a # pre) @ k # post" by simp
    moreover from p(4) False
    have "\<forall>k'\<in>set (a # pre). \<forall>g'. map_of reps k' = Some g' \<longrightarrow> \<not> Ready g'" by auto
    ultimately show ?thesis using p(1,2) by blast
  qed
qed

lemma range_ready_None:
  "range_ready keys reps = None \<Longrightarrow> k \<in> set keys \<Longrightarrow> map_of reps k = Some g \<Longrightarrow> \<not> Ready g"
  by (induction keys) (auto split: option.splits if_splits)

lemma map_of_key: "map_of reps k = Some g \<Longrightarrow> k \<in> fst ` set reps"
  by (meson domI domIff map_of_eq_None_iff)

lemma ids_ok_map_of: "ids_ok s \<Longrightarrow> map_of (Replicas s) k = Some g \<Longrightarrow> ID g = k"
  by (auto simp: ids_ok_def list_all_iff dest: map_of_SomeD)

text \<open>
  C1, amended: when no game is active and some replica is ready, the search at the
  head of the loop makes exactly one replica active. It is a ready one: the first
  ready replica in the order in which the \<open>range\<close> visits the keys. When that order
  is ascending it is the ready replica with the lowest id.
\<close>

theorem select_first_ready:
  assumes "active s = None"
    and "set keys = fst ` set (Replicas s)"
    and "ids_ok s"
    and "map_of (Replicas s) r = Some gr" and "Ready gr"
  shows "\<exists>k g pre post.
           Loop_select keys s =
             (s\<lparr>Active := Some k\<rparr>,
              [ProxyAddr [], Printf ''[core] switching to %s'' [S (Name g)], ProxyAddr (Addr g)])
         \<and> map_of (Replicas s) k = Some g \<and> ID g = k \<and> Ready g
         \<and> keys = pre @ k # post
         \<and> (\<forall>k'\<in>set pre. \<forall>g'. map_of (Replicas s) k' = Some g' \<longrightarrow> \<not> Ready g')
         \<and> (sorted keys \<longrightarrow>
              (\<forall>k' g'. map_of (Replicas s) k' = Some g' \<and> Ready g' \<longrightarrow> ID g \<le> ID g'))"
proof -
  from assms(2,4) have "r \<in> set keys" by (simp add: map_of_key)
  with assms(4,5) have "range_ready keys (Replicas s) \<noteq> None"
    using range_ready_None [of keys "Replicas s" r gr] by blast
  then obtain k g where rr: "range_ready keys (Replicas s) = Some (k, g)" by auto
  from range_ready_Some [OF rr] obtain pre post where
    p: "map_of (Replicas s) k = Some g" "Ready g" "keys = pre @ k # post"
       "\<forall>k'\<in>set pre. \<forall>g'. map_of (Replicas s) k' = Some g' \<longrightarrow> \<not> Ready g'"
    by blast
  have sel: "Loop_select keys s =
             (s\<lparr>Active := Some k\<rparr>,
              [ProxyAddr [], Printf ''[core] switching to %s'' [S (Name g)], ProxyAddr (Addr g)])"
    by (simp add: Loop_select_def assms(1) rr)
  have idk: "ID g = k" by (rule ids_ok_map_of [OF assms(3) p(1)])
  have low: "ID g \<le> ID g'" if srt: "sorted keys" and m: "map_of (Replicas s) k' = Some g'" and rd: "Ready g'"
    for k' g'
  proof -
    from m assms(2) have "k' \<in> set keys" by (simp add: map_of_key)
    moreover from p(4) m rd have "k' \<notin> set pre" by blast
    ultimately have "k' = k \<or> k' \<in> set post" using p(3) by auto
    moreover from srt p(3) have "\<forall>x\<in>set post. k \<le> x" by (simp add: sorted_append)
    ultimately have "k \<le> k'" by auto
    with idk ids_ok_map_of [OF assms(3) m] show ?thesis by simp
  qed
  from sel p idk low show ?thesis by blast
qed

lemma Loop_last:
  assumes "Loop_select keys s = (s1, o1)" and "Loop_event e s1 evt = Inr (s2, o2)"
  shows "last (fst (Loop e ((keys, Recv evt) # xs) s)) = last (fst (Loop e xs s2))"
proof -
  obtain ss out r where rest: "Loop e xs s2 = (ss, out, r)" by (cases "Loop e xs s2")
  with Loop_hd [of e xs s2] have "ss \<noteq> []" by simp
  with assms rest show ?thesis by (simp add: Loop_body_def)
qed

lemma c1_NewSession: "NewSession (Inr \<lparr>Attempt = 0\<rparr>) ''img'' 3 = Inr c1_before"
  by (simp add: NewSession_def NewGame_def c1_before_def c1_state_def demo_game_def upt_rec)

lemmas c1_defs = c1_state_def demo_game_def c1_up_def demo_event_def demo_env_def

lemma c1_step1:
  "Loop_select [0, 1, 2] c1_before = (c1_before, [ProxyAddr []])"
  "\<exists>out. Loop_event demo_env c1_before (demo_event ''generated'' 0) =
     Inr (c1_state [(0, c1_up 0 True), (1, demo_game 1 False), (2, demo_game 2 False)] None 0, out)"
  by (simp_all add: Loop_select_def Loop_event_def checks_def active_def dispatch_def Refresh_def
      c1_before_def c1_defs)

lemma c1_step2:
  "\<exists>out. Loop_select [0, 1, 2] (c1_state [(0, c1_up 0 True), (1, demo_game 1 False), (2, demo_game 2 False)] None 0)
     = (c1_state [(0, c1_up 0 True), (1, demo_game 1 False), (2, demo_game 2 False)] (Some 0) 0, out)"
  "\<exists>out. Loop_event demo_env (c1_state [(0, c1_up 0 True), (1, demo_game 1 False), (2, demo_game 2 False)] (Some 0) 0)
      (demo_event ''generated'' 1) =
     Inr (c1_state [(0, c1_up 0 True), (1, c1_up 1 True), (2, demo_game 2 False)] (Some 0) 0, out)"
  by (simp_all add: Loop_select_def Loop_event_def checks_def active_def dispatch_def Refresh_def
      c1_defs)

lemma c1_step3:
  "Loop_select [0, 1, 2] (c1_state [(0, c1_up 0 True), (1, c1_up 1 True), (2, demo_game 2 False)] (Some 0) 0)
     = (c1_state [(0, c1_up 0 True), (1, c1_up 1 True), (2, demo_game 2 False)] (Some 0) 0, [])"
  "\<exists>out. Loop_event demo_env (c1_state [(0, c1_up 0 True), (1, c1_up 1 True), (2, demo_game 2 False)] (Some 0) 0)
      (demo_event ''generated'' 2) =
     Inr (c1_state [(0, c1_up 0 True), (1, c1_up 1 True), (2, c1_up 2 True)] (Some 0) 0, out)"
  by (simp_all add: Loop_select_def Loop_event_def checks_def active_def dispatch_def Refresh_def
      c1_defs)

lemma c1_step4:
  "Loop_select [0, 1, 2] (c1_state [(0, c1_up 0 True), (1, c1_up 1 True), (2, c1_up 2 True)] (Some 0) 0)
     = (c1_state [(0, c1_up 0 True), (1, c1_up 1 True), (2, c1_up 2 True)] (Some 0) 0, [])"
  "\<exists>out. Loop_event demo_env (c1_state [(0, c1_up 0 True), (1, c1_up 1 True), (2, c1_up 2 True)] (Some 0) 0)
      (demo_event ''cmd.reset'' 0) = Inr (c1_ready, out)"
  by (simp_all add: Loop_select_def Loop_event_def checks_def active_def dispatch_def Reset_def
      c1_ready_def c1_defs)

lemma c1_reached: "last (fst (Loop demo_env c1_run c1_before)) = c1_ready"
proof -
  from c1_step1(2) obtain o1 where e1: "Loop_event demo_env c1_before (demo_event ''generated'' 0) =
     Inr (c1_state [(0, c1_up 0 True), (1, demo_game 1 False), (2, demo_game 2 False)] None 0, o1)" ..
  from c1_step2(1) obtain p2 where s2: "Loop_select [0, 1, 2] (c1_state [(0, c1_up 0 True), (1, demo_game 1 False), (2, demo_game 2 False)] None 0)
     = (c1_state [(0, c1_up 0 True), (1, demo_game 1 False), (2, demo_game 2 False)] (Some 0) 0, p2)" ..
  from c1_step2(2) obtain o2 where e2: "Loop_event demo_env (c1_state [(0, c1_up 0 True), (1, demo_game 1 False), (2, demo_game 2 False)] (Some 0) 0)
      (demo_event ''generated'' 1) =
     Inr (c1_state [(0, c1_up 0 True), (1, c1_up 1 True), (2, demo_game 2 False)] (Some 0) 0, o2)" ..
  from c1_step3(2) obtain o3 where e3: "Loop_event demo_env (c1_state [(0, c1_up 0 True), (1, c1_up 1 True), (2, demo_game 2 False)] (Some 0) 0)
      (demo_event ''generated'' 2) =
     Inr (c1_state [(0, c1_up 0 True), (1, c1_up 1 True), (2, c1_up 2 True)] (Some 0) 0, o3)" ..
  from c1_step4(2) obtain o4 where e4: "Loop_event demo_env (c1_state [(0, c1_up 0 True), (1, c1_up 1 True), (2, c1_up 2 True)] (Some 0) 0)
      (demo_event ''cmd.reset'' 0) = Inr (c1_ready, o4)" ..
  show ?thesis
    unfolding c1_run_def
    by (simp only: Loop_last [OF c1_step1(1) e1] Loop_last [OF s2 e2] Loop_last [OF c1_step3(1) e3]
        Loop_last [OF c1_step4(1) e4]) simp
qed

text \<open>
  C1 as stated fails: in the session reached by the run above from \<open>NewSession\<close> with
  three replicas, all of which have reported \<open>generated\<close>, replicas 1 and 2 are
  ready and none is active; a \<open>range\<close> that visits the keys as 2, 1, 0 makes
  replica 2 active, though replica 1 is ready and has the lower id.
\<close>

theorem select_lowest_id_counterexample:
  "NewSession (Inr \<lparr>Attempt = 0\<rparr>) ''img'' 3 = Inr c1_before
   \<and> last (fst (Loop demo_env c1_run c1_before)) = c1_ready
   \<and> active c1_ready = None
   \<and> fst (Loop_select [2, 1, 0] c1_ready) = c1_ready\<lparr>Active := Some 2\<rparr>
   \<and> map_of (Replicas c1_ready) 1 = Some (c1_up 1 True)
   \<and> Ready (c1_up 1 True) \<and> ID (c1_up 1 True) = 1
   \<and> map_of (Replicas c1_ready) 2 = Some (c1_up 2 True) \<and> ID (c1_up 2 True) = 2"
proof -
  have "active c1_ready = None" by (simp add: active_def c1_ready_def c1_state_def)
  moreover have "fst (Loop_select [2, 1, 0] c1_ready) = c1_ready\<lparr>Active := Some 2\<rparr>"
    by (simp add: Loop_select_def active_def c1_ready_def c1_state_def c1_up_def)
  moreover have "map_of (Replicas c1_ready) 1 = Some (c1_up 1 True)"
    "map_of (Replicas c1_ready) 2 = Some (c1_up 2 True)"
    by (simp_all add: c1_ready_def c1_state_def)
  moreover have "Ready (c1_up 1 True)" "ID (c1_up 1 True) = 1" "ID (c1_up 2 True) = 2"
    by (simp_all add: c1_up_def)
  ultimately show ?thesis using c1_NewSession c1_reached by simp
qed

theorem select_first_ready_witness:
  "active c1_ready = None \<and> set [0, 1, 2] = fst ` set (Replicas c1_ready) \<and> ids_ok c1_ready
   \<and> map_of (Replicas c1_ready) 2 = Some (c1_up 2 True) \<and> Ready (c1_up 2 True) \<and> sorted [0, 1, 2 :: int]
   \<and> (\<exists>k g. Loop_select [0, 1, 2] c1_ready =
             (c1_ready\<lparr>Active := Some k\<rparr>,
              [ProxyAddr [], Printf ''[core] switching to %s'' [S (Name g)], ProxyAddr (Addr g)])
         \<and> map_of (Replicas c1_ready) k = Some g \<and> ID g = k \<and> Ready g
         \<and> ID g \<le> ID (c1_up 2 True))"
proof -
  have h1: "active c1_ready = None" by (simp add: active_def c1_ready_def c1_state_def)
  have h2: "set [0, 1, 2] = fst ` set (Replicas c1_ready)" by (simp add: c1_ready_def c1_state_def)
  have h3: "ids_ok c1_ready" by (simp add: ids_ok_def c1_ready_def c1_state_def c1_up_def)
  have h4: "map_of (Replicas c1_ready) 2 = Some (c1_up 2 True)" by (simp add: c1_ready_def c1_state_def)
  have h5: "Ready (c1_up 2 True)" by (simp add: c1_up_def)
  have h6: "sorted [0, 1, 2 :: int]" by simp
  from select_first_ready [OF h1 h2 h3 h4 h5] h4 h5 h6
  have "\<exists>k g. Loop_select [0, 1, 2] c1_ready =
             (c1_ready\<lparr>Active := Some k\<rparr>,
              [ProxyAddr [], Printf ''[core] switching to %s'' [S (Name g)], ProxyAddr (Addr g)])
         \<and> map_of (Replicas c1_ready) k = Some g \<and> ID g = k \<and> Ready g
         \<and> ID g \<le> ID (c1_up 2 True)"
    by blast
  with h1 h2 h3 h4 h5 h6 show ?thesis by blast
qed

section \<open>The replica map along a run\<close>

text \<open>
  \<open>NewSession\<close> with \<open>n\<close> replicas builds a map with the keys \<open>0\<close> to \<open>n - 1\<close>, each
  holding the Game of that id, and no pass of the loop changes the keys or the ids:
  \<open>len(s.Replicas)\<close> stays the configured number of replicas.
\<close>

lemma set_update_subset: "set (AList.update k v al) \<subseteq> insert (k, v) (set al)"
  by (induction al) auto

lemma ids_ok_update:
  assumes "ids_ok s" and "ID g = k"
  shows "ids_ok (s\<lparr>Replicas := AList.update k g (Replicas s)\<rparr>)"
  using assms set_update_subset [of k g "Replicas s"]
  by (auto simp: ids_ok_def list_all_iff)

lemma NewGame_keys:
  "gid \<notin> set (map fst (Replicas s)) \<Longrightarrow>
   map fst (Replicas (NewGame s gid)) = map fst (Replicas s) @ [gid]"
  by (simp add: NewGame_def update_keys)

lemma NewGame_ids: "ids_ok s \<Longrightarrow> ids_ok (NewGame s gid)"
  unfolding NewGame_def by (rule ids_ok_update) simp_all

lemma NewGame_frame:
  "Active (NewGame s gid) = Active s" "State (NewGame s gid) = State s" "Data (NewGame s gid) = Data s"
  by (simp_all add: NewGame_def)

lemma foldl_NewGame:
  assumes "Replicas s = []"
  shows "map fst (Replicas (foldl NewGame s (map int [0..<n]))) = map int [0..<n]
         \<and> ids_ok (foldl NewGame s (map int [0..<n]))
         \<and> Active (foldl NewGame s (map int [0..<n])) = Active s
         \<and> State (foldl NewGame s (map int [0..<n])) = State s
         \<and> Data (foldl NewGame s (map int [0..<n])) = Data s"
proof (induction n)
  case 0
  from assms show ?case by (simp add: ids_ok_def)
next
  case (Suc n)
  let ?t = "foldl NewGame s (map int [0..<n])"
  have f: "foldl NewGame s (map int [0..<Suc n]) = NewGame ?t (int n)" by simp
  from Suc have "int n \<notin> set (map fst (Replicas ?t))" by auto
  from NewGame_keys [OF this] Suc show ?case
    unfolding f by (simp add: NewGame_ids NewGame_frame)
qed

lemma NewSession_replicas:
  assumes "NewSession loaded img n = Inr s"
  shows "map fst (Replicas s) = map int [0..<nat n] \<and> ids_ok s \<and> Active s = None \<and> State s = []
         \<and> loaded = Inr (Data s)"
proof (cases loaded)
  case (Inl err)
  with assms show ?thesis by (simp add: NewSession_def)
next
  case (Inr d)
  let ?s0 = "\<lparr>Data = d, Replicas = [], SImage = img, Active = None, State = [], TimeStart = zero_Time\<rparr>"
  from assms Inr have s: "s = foldl NewGame ?s0 (map int [0..<nat n])"
    by (simp add: NewSession_def)
  have "Replicas ?s0 = []" by simp
  from foldl_NewGame [OF this, of "nat n"] Inr show ?thesis unfolding s by simp
qed

lemma Loop_select_Replicas: "Replicas (fst (Loop_select keys s)) = Replicas s"
  by (simp add: Loop_select_def split: option.splits prod.splits)

lemma active_key: "active s = Some (p, g) \<Longrightarrow> map_of (Replicas s) p = Some g"
  by (auto simp: active_def split: option.splits)

lemma update_present_keys: "map_of al k = Some v \<Longrightarrow> map fst (AList.update k v' al) = map fst al"
  by (simp add: update_keys map_of_key)

lemma dispatch_replicas:
  assumes "dispatch e s evt = Inr (s', out)"
  shows "map fst (Replicas s') = map fst (Replicas s) \<and> (ids_ok s \<longrightarrow> ids_ok s')"
proof -
  consider (reset) "Type evt = ''cmd.reset''" | (gen) "Type evt = ''generated''"
    | (other) "Type evt \<noteq> ''cmd.reset''" "Type evt \<noteq> ''generated''" by blast
  then show ?thesis
  proof cases
    case reset
    with assms obtain p g where a: "active s = Some (p, g)"
      and s': "s' = s\<lparr>State := [], Data := (Data s)\<lparr>Attempt := Attempt (Data s) + 1\<rparr>,
            Replicas := AList.update p (g\<lparr>Ready := False\<rparr>) (Replicas s), Active := None\<rparr>"
      by (auto simp: dispatch_def Reset_def split: option.splits)
    note m = active_key [OF a]
    have "ids_ok s'" if "ids_ok s"
    proof -
      from that m have "ID (g\<lparr>Ready := False\<rparr>) = p" by (simp add: ids_ok_map_of)
      from ids_ok_update [OF that this] show ?thesis
        unfolding s' by (simp add: ids_ok_def)
    qed
    with m show ?thesis unfolding s' by (simp add: update_present_keys)
  next
    case gen
    with assms obtain g where m: "map_of (Replicas s) (GameID evt) = Some g"
      and s': "s' = s\<lparr>Replicas := AList.update (GameID evt) (fst (Refresh e (g\<lparr>Ready := True\<rparr>))) (Replicas s)\<rparr>"
      by (auto simp: dispatch_def split: option.splits prod.splits)
    have r: "ID (fst (Refresh e (g\<lparr>Ready := True\<rparr>))) = ID g"
      by (simp add: Refresh_def split: option.splits)
    have "ids_ok s'" if "ids_ok s"
    proof -
      from that m r have "ID (fst (Refresh e (g\<lparr>Ready := True\<rparr>))) = GameID evt"
        by (simp add: ids_ok_map_of)
      from ids_ok_update [OF that this] show ?thesis unfolding s' .
    qed
    with m show ?thesis unfolding s' by (simp add: update_present_keys)
  next
    case other
    with assms have "Replicas s' = Replicas s"
      by (auto simp: dispatch_def split: if_splits option.splits)
    then show ?thesis by (simp add: ids_ok_def)
  qed
qed

lemma Loop_event_replicas:
  assumes "Loop_event e s evt = Inr (s', out)"
  shows "map fst (Replicas s') = map fst (Replicas s) \<and> (ids_ok s \<longrightarrow> ids_ok s')"
proof (cases "checks s evt")
  case None
  with assms obtain o' where "dispatch e s evt = Inr (s', o')"
    by (auto simp: Loop_event_pass split: sum.splits)
  then show ?thesis by (rule dispatch_replicas)
next
  case (Some x)
  with assms show ?thesis by (simp add: Loop_event_skip)
qed

lemma Loop_body_replicas:
  assumes "Loop_body e keys inp s = Inr (stop, s', out)"
  shows "map fst (Replicas s') = map fst (Replicas s) \<and> (ids_ok s \<longrightarrow> ids_ok s')"
proof -
  have sel: "ids_ok (fst (Loop_select keys s)) = ids_ok s"
    by (simp add: ids_ok_def Loop_select_Replicas)
  show ?thesis
  proof (cases inp)
    case (Done err)
    with assms have "s' = fst (Loop_select keys s)"
      by (auto simp: Loop_body_def split: prod.splits)
    with sel show ?thesis by (simp add: Loop_select_Replicas)
  next
    case (Recv evt)
    with assms obtain o2 where "Loop_event e (fst (Loop_select keys s)) evt = Inr (s', o2)"
      by (auto simp: Loop_body_def split: prod.splits sum.splits)
    from Loop_event_replicas [OF this] sel show ?thesis
      by (simp add: Loop_select_Replicas)
  qed
qed

lemma Loop_replicas:
  assumes "Loop e xs s = (ss, out, r)" and "s' \<in> set ss"
  shows "map fst (Replicas s') = map fst (Replicas s) \<and> (ids_ok s \<longrightarrow> ids_ok s')"
  using assms
proof (induction xs arbitrary: s ss out r)
  case Nil
  then show ?case by auto
next
  case (Cons x xs)
  obtain keys inp where x: "x = (keys, inp)" by (cases x)
  show ?case
  proof (cases "Loop_body e keys inp s")
    case (Inl f)
    with Cons.prems x show ?thesis by auto
  next
    case (Inr t)
    then obtain stop s1 o1 where body: "Loop_body e keys inp s = Inr (stop, s1, o1)"
      by (cases t) auto
    note step = Loop_body_replicas [OF body]
    show ?thesis
    proof (cases stop)
      case True
      with Cons.prems x body have "s' = s \<or> s' = s1" by auto
      with step show ?thesis by auto
    next
      case False
      obtain ss' o2 r' where rest: "Loop e xs s1 = (ss', o2, r')" by (cases "Loop e xs s1")
      with Cons.prems x body False have "s' = s \<or> s' \<in> set ss'" by auto
      then show ?thesis
      proof
        assume "s' = s" then show ?thesis by simp
      next
        assume "s' \<in> set ss'"
        from Cons.IH [OF rest this] step show ?thesis by auto
      qed
    qed
  qed
qed

lemma configured_count:
  assumes "NewSession loaded img n = Inr s0" and "Loop e xs s0 = (ss, out, r)" and "s \<in> set ss"
  shows "map fst (Replicas s) = map int [0..<nat n] \<and> length (Replicas s) = nat n \<and> ids_ok s"
proof -
  from NewSession_replicas [OF assms(1)] Loop_replicas [OF assms(2,3)]
  have k: "map fst (Replicas s) = map int [0..<nat n]" and i: "ids_ok s" by simp_all
  from k have "length (map fst (Replicas s)) = length (map int [0..<nat n])" by simp
  then have "length (Replicas s) = nat n" by simp
  with k i show ?thesis by simp
qed

text \<open>
  The active pointer is nil or points at a Game of the map in every session of a run
  that starts from \<open>NewSession\<close>; there \<open>active\<close> is \<open>None\<close> exactly when the pointer
  is nil.
\<close>

lemma ptr_ok_keys:
  "ptr_ok s \<longleftrightarrow> (\<forall>p. Active s = Some p \<longrightarrow> p \<in> set (map fst (Replicas s)))"
  by (auto simp: ptr_ok_def map_of_eq_None_iff split: option.splits)

lemma ptr_ok_active: "ptr_ok s \<Longrightarrow> (active s = None \<longleftrightarrow> Active s = None)"
  by (auto simp: ptr_ok_def active_def split: option.splits)

lemma Loop_select_ptr:
  assumes "ptr_ok s"
  shows "ptr_ok (fst (Loop_select keys s))"
proof (cases "active s = None")
  case False
  then obtain a where "active s = Some a" by blast
  then have "Loop_select keys s = (s, [])" by (rule Loop_select_active)
  with assms show ?thesis by simp
next
  case True
  show ?thesis
  proof (cases "range_ready keys (Replicas s)")
    case None
    with True assms show ?thesis by (simp add: Loop_select_def)
  next
    case (Some a)
    obtain k g where a: "a = (k, g)" by (cases a)
    from range_ready_Some [of keys "Replicas s" k g] Some a
    have "map_of (Replicas s) k = Some g" by simp
    with True Some a show ?thesis by (simp add: Loop_select_def ptr_ok_def)
  qed
qed

lemma Loop_body_ptr:
  assumes "Loop_body e keys inp s = Inr (stop, s', out)" and "ptr_ok s"
  shows "ptr_ok s'"
proof -
  let ?s1 = "fst (Loop_select keys s)"
  note p1 = Loop_select_ptr [OF assms(2), of keys]
  show ?thesis
  proof (cases inp)
    case (Done err)
    with assms(1) have "s' = ?s1" by (auto simp: Loop_body_def split: prod.splits)
    with p1 show ?thesis by simp
  next
    case (Recv evt)
    with assms(1) obtain o2 where ev: "Loop_event e ?s1 evt = Inr (s', o2)"
      by (auto simp: Loop_body_def split: prod.splits sum.splits)
    from Loop_event_replicas [OF ev] have k: "map fst (Replicas s') = map fst (Replicas ?s1)" by simp
    have "Active s' = None \<or> Active s' = Active ?s1"
    proof (cases "checks ?s1 evt")
      case None
      with ev obtain o' where "dispatch e ?s1 evt = Inr (s', o')"
        by (auto simp: Loop_event_pass split: sum.splits)
      then show ?thesis
        by (auto simp: dispatch_def Reset_def split: if_splits option.splits prod.splits)
    next
      case (Some x)
      with ev show ?thesis by (simp add: Loop_event_skip)
    qed
    with p1 k show ?thesis unfolding ptr_ok_keys by auto
  qed
qed

lemma Loop_ptr:
  assumes "Loop e xs s = (ss, out, r)" and "s' \<in> set ss" and "ptr_ok s"
  shows "ptr_ok s'"
  using assms
proof (induction xs arbitrary: s ss out r)
  case Nil
  then show ?case by auto
next
  case (Cons x xs)
  obtain keys inp where x: "x = (keys, inp)" by (cases x)
  show ?case
  proof (cases "Loop_body e keys inp s")
    case (Inl f)
    with Cons.prems x show ?thesis by auto
  next
    case (Inr t)
    then obtain stop s1 o1 where body: "Loop_body e keys inp s = Inr (stop, s1, o1)"
      by (cases t) auto
    note step = Loop_body_ptr [OF body Cons.prems(3)]
    show ?thesis
    proof (cases stop)
      case True
      with Cons.prems x body have "s' = s \<or> s' = s1" by auto
      with step Cons.prems(3) show ?thesis by auto
    next
      case False
      obtain ss' o2 r' where rest: "Loop e xs s1 = (ss', o2, r')" by (cases "Loop e xs s1")
      with Cons.prems x body False have "s' = s \<or> s' \<in> set ss'" by auto
      then show ?thesis
      proof
        assume "s' = s" with Cons.prems(3) show ?thesis by simp
      next
        assume "s' \<in> set ss'"
        from Cons.IH [OF rest this step] show ?thesis .
      qed
    qed
  qed
qed

lemma run_from_NewSession:
  assumes "NewSession loaded img n = Inr s0" and "Loop e xs s0 = (ss, out, r)" and "s \<in> set ss"
  shows "map fst (Replicas s) = map int [0..<nat n] \<and> length (Replicas s) = nat n
         \<and> ids_ok s \<and> ptr_ok s"
proof -
  from NewSession_replicas [OF assms(1)] have "ptr_ok s0" by (simp add: ptr_ok_def)
  from Loop_ptr [OF assms(2,3) this] configured_count [OF assms] show ?thesis by simp
qed

end
